theory Spec2Isabelle
  imports Main
begin

section \<open>Package cron: tasks and their identities\<close>

text \<open>
  A \<open>time.Duration\<close> is a count of nanoseconds. The durations of \<open>cron.go\<close> are
  constants far inside the range of a 64-bit integer, so they are integers here.
\<close>

type_synonym Duration = int

definition Second :: Duration where
  "Second = 1000000000"

definition Minute :: Duration where
  "Minute = 60 * Second"

definition Hour :: Duration where
  "Hour = 60 * Minute"

text \<open>
  The work functions of the package. A Go function value is used by \<open>cron.go\<close> in two
  ways: it is called, and \<open>zruntime.FuncName\<close> reads its qualified name. The functions
  named in \<open>cron.go\<close> are those of package \<open>zgo.at/goatcounter/v2/cron\<close>.
\<close>

datatype Func =
    DataRetention | renewACME | vacuumDeleted | oldExports | sessions | EmailReports
  | PersistAndStat

fun short_name :: "Func \<Rightarrow> string" where
  "short_name DataRetention = ''DataRetention''"
| "short_name renewACME = ''renewACME''"
| "short_name vacuumDeleted = ''vacuumDeleted''"
| "short_name oldExports = ''oldExports''"
| "short_name sessions = ''sessions''"
| "short_name EmailReports = ''EmailReports''"
| "short_name PersistAndStat = ''PersistAndStat''"

definition FuncName :: "Func \<Rightarrow> string" where
  "FuncName f = ''zgo.at/goatcounter/v2/cron.'' @ short_name f"

text \<open>\<open>strings.Replace(s, old, new, 1)\<close>: the first occurrence of \<open>old\<close> is replaced.\<close>

fun Replace_first :: "string \<Rightarrow> string \<Rightarrow> string \<Rightarrow> string" where
  "Replace_first [] old new = (if old = [] then new else [])"
| "Replace_first (c # cs) old new =
     (if take (length old) (c # cs) = old then new @ drop (length old) (c # cs)
      else c # Replace_first cs old new)"

record Task =
  Desc :: string
  Fun :: Func
  Period :: Duration

definition ID :: "Task \<Rightarrow> string" where
  "ID t = Replace_first (FuncName (Fun t)) ''zgo.at/goatcounter/v2/cron.'' ''''"

definition Tasks_init :: "Task list" where
  "Tasks_init =
    [\<lparr>Desc = ''vacuum pageviews (data retention)'', Fun = DataRetention, Period = 1 * Hour\<rparr>,
     \<lparr>Desc = ''renew ACME certs'', Fun = renewACME, Period = 2 * Hour\<rparr>,
     \<lparr>Desc = ''vacuum soft-deleted sites'', Fun = vacuumDeleted, Period = 12 * Hour\<rparr>,
     \<lparr>Desc = ''rm old exports'', Fun = oldExports, Period = 1 * Hour\<rparr>,
     \<lparr>Desc = ''cycle sessions'', Fun = sessions, Period = 1 * Minute\<rparr>,
     \<lparr>Desc = ''send email reports'', Fun = EmailReports, Period = 1 * Hour\<rparr>]"

section \<open>The package state, PersistInterval and RunBackground\<close>

text \<open>
  What a submitted closure carries: the name and the duration handed to \<open>timeout\<close>,
  and the work function it calls.
\<close>

record Job =
  wd_name :: string
  wd_after :: Duration
  work :: Func

text \<open>
  The goroutines \<open>RunBackground\<close> starts: the loop on \<open>PersistRunner.Run\<close> and one
  timer loop for each task.
\<close>

datatype goroutine = PersistRunnerLoop | TimerLoop Task

text \<open>
  The package variables \<open>Tasks\<close>, \<open>stopped\<close> and \<open>started\<close>, and the goroutines
  started so far. A call returns the state it leaves and the panic it raised, if any.
\<close>

record cron_state =
  Tasks :: "Task list"
  stopped :: int
  started :: int
  goroutines :: "goroutine list"

definition cron_init :: cron_state where
  "cron_init = \<lparr>Tasks = Tasks_init, stopped = 0, started = 0, goroutines = []\<rparr>"

definition PersistInterval :: "Duration \<Rightarrow> cron_state \<Rightarrow> cron_state \<times> string option" where
  "PersistInterval d s =
     (if started s = 1 then (s, Some ''cron.PersistInterval: cron already started'')
      else (s\<lparr>Tasks := Tasks s @ [\<lparr>Desc = ''persist hits'', Fun = PersistAndStat, Period = d\<rparr>]\<rparr>,
            None))"

definition RunBackground :: "cron_state \<Rightarrow> cron_state \<times> string option" where
  "RunBackground s =
     (let s1 = s\<lparr>started := 1\<rparr>
      in (s1\<lparr>goroutines := goroutines s1 @ PersistRunnerLoop # map TimerLoop (Tasks s1)\<rparr>,
          None))"

section \<open>The loops started by RunBackground\<close>

text \<open>
  A loop runs for ever; what it has done after finitely many wake-ups is a function of
  what it met at each of them. \<open>bgrun.Run\<close> is not part of \<open>cron.go\<close>: whether the
  call returns to the loop or a panic comes out of it is given with the wake-up, as is
  the value of \<open>stopped\<close> at that moment.
\<close>

datatype call_outcome = Returns | Panics string

record wake =
  stop_flag :: int
  run_call :: call_outcome

text \<open>
  The trace of a goroutine: \<open>time.Sleep\<close> has returned, a value has been received from
  \<open>PersistRunner.Run\<close>, \<open>stopped.Value()\<close> has been read, \<open>bgrun.Run\<close> has been
  called with a name and a closure, the deferred \<open>zlog.Recover\<close> has caught and logged
  a panic, the goroutine has returned, or a panic has left the goroutine, which ends a
  Go process.
\<close>

datatype event =
    Slept Duration
  | Received
  | Polled int
  | Submitted string Job
  | Recovered string
  | Returned
  | Crashed string

text \<open>The loop on \<open>PersistRunner.Run\<close> (lines 64 to 76).\<close>

fun persist_loop :: "wake list \<Rightarrow> event list" where
  "persist_loop [] = []"
| "persist_loop (w # ws) =
     Received
     # Submitted ''cron:PersistAndStat''
         \<lparr>wd_name = ''PersistAndStat'', wd_after = 10 * Second, work = PersistAndStat\<rparr>
     # (case run_call w of
          Returns \<Rightarrow> persist_loop ws
        | Panics p \<Rightarrow> [Crashed p])"

text \<open>
  The timer loop of a task (lines 79 to 98). \<open>zlog.Recover\<close> is deferred in the
  goroutine's function, outside the \<open>for\<close>: a panic inside the loop unwinds to it,
  is logged, and the function returns.
\<close>

fun timer_loop :: "Task \<Rightarrow> wake list \<Rightarrow> event list" where
  "timer_loop t [] = []"
| "timer_loop t (w # ws) =
     Slept (Period t)
     # Polled (stop_flag w)
     # (if stop_flag w = 1 then [Returned]
        else Submitted (''cron:'' @ ID t)
               \<lparr>wd_name = ID t, wd_after = 10 * Second, work = Fun t\<rparr>
             # (case run_call w of
                  Returns \<Rightarrow> timer_loop t ws
                | Panics p \<Rightarrow> [Recovered p, Returned]))"

fun run_goroutine :: "goroutine \<Rightarrow> wake list \<Rightarrow> event list" where
  "run_goroutine PersistRunnerLoop ws = persist_loop ws"
| "run_goroutine (TimerLoop t) ws = timer_loop t ws"

text \<open>All the loops, each with its own wake-ups.\<close>

definition run_all :: "goroutine list \<Rightarrow> wake list list \<Rightarrow> event list list" where
  "run_all gs wss = map (\<lambda>(g, ws). run_goroutine g ws) (zip gs wss)"

text \<open>The calls of \<open>bgrun.Run\<close> in a trace, and the counts of sleeps and polls.\<close>

fun submitted :: "event list \<Rightarrow> (string \<times> Job) list" where
  "submitted [] = []"
| "submitted (Submitted k j # es) = (k, j) # submitted es"
| "submitted (_ # es) = submitted es"

fun is_Polled :: "event \<Rightarrow> bool" where
  "is_Polled (Polled v) = True"
| "is_Polled _ = False"

fun is_wait :: "event \<Rightarrow> bool" where
  "is_wait (Slept d) = True"
| "is_wait Received = True"
| "is_wait _ = False"

fun is_Crashed :: "event \<Rightarrow> bool" where
  "is_Crashed (Crashed p) = True"
| "is_Crashed _ = False"

text \<open>A wake-up at which the flag is not set and \<open>bgrun.Run\<close> returns.\<close>

definition quiet :: "wake \<Rightarrow> bool" where
  "quiet w \<longleftrightarrow> stop_flag w \<noteq> 1 \<and> run_call w = Returns"

section \<open>The executor behind bgrun.Run\<close>

text \<open>
  Modelled from the spec: package \<open>bgrun\<close>, whose \<open>Run(name, f)\<close> the loops call, is
  missing from the sources. The spec has it as an executor keyed by the name, so that two
  invocations under one name never run at the same time: a run under a name that is
  busy is delayed, and the delayed runs of a name start in the order in which they were
  accepted.
\<close>

record executor =
  active :: "(string \<times> Job) list"
  delayed :: "(string \<times> Job) list"

definition executor_init :: executor where
  "executor_init = \<lparr>active = [], delayed = []\<rparr>"

definition bgrun_Run :: "string \<Rightarrow> Job \<Rightarrow> executor \<Rightarrow> executor" where
  "bgrun_Run name job ex =
     (if name \<in> set (map fst (active ex)) then ex\<lparr>delayed := delayed ex @ [(name, job)]\<rparr>
      else ex\<lparr>active := active ex @ [(name, job)]\<rparr>)"

fun drop_first :: "string \<Rightarrow> (string \<times> Job) list \<Rightarrow> (string \<times> Job) list" where
  "drop_first name [] = []"
| "drop_first name (kj # kjs) = (if fst kj = name then kjs else kj # drop_first name kjs)"

fun find_first :: "string \<Rightarrow> (string \<times> Job) list \<Rightarrow> (string \<times> Job) option" where
  "find_first name [] = None"
| "find_first name (kj # kjs) = (if fst kj = name then Some kj else find_first name kjs)"

text \<open>
  Modelled from the spec: the run under \<open>name\<close> ends; the oldest delayed run of that
  name, if there is one, starts.
\<close>

definition job_done :: "string \<Rightarrow> executor \<Rightarrow> executor" where
  "job_done name ex =
     (if name \<notin> set (map fst (active ex)) then ex
      else (case find_first name (delayed ex) of
              None \<Rightarrow> ex\<lparr>active := drop_first name (active ex)\<rparr>
            | Some kj \<Rightarrow> ex\<lparr>active := drop_first name (active ex) @ [kj],
                              delayed := drop_first name (delayed ex)\<rparr>))"

text \<open>
  The loops run side by side. A schedule says which goroutine makes its next step, or
  which run ends; a call of \<open>bgrun.Run\<close> in a trace goes to the executor.
\<close>

datatype sched = Step nat | Done string

fun deliver :: "event \<Rightarrow> executor \<Rightarrow> executor" where
  "deliver (Submitted k j) ex = bgrun_Run k j ex"
| "deliver _ ex = ex"

fun interleave :: "event list list \<Rightarrow> sched list \<Rightarrow> executor \<Rightarrow> executor" where
  "interleave trs [] ex = ex"
| "interleave trs (Step i # sc) ex =
     (if i < length trs then
        (case trs ! i of
           [] \<Rightarrow> interleave trs sc ex
         | e # es \<Rightarrow> interleave (trs[i := es]) sc (deliver e ex))
      else interleave trs sc ex)"
| "interleave trs (Done k # sc) ex = interleave trs sc (job_done k ex)"

text \<open>The runs of a work function that are active.\<close>

definition active_runs :: "Func \<Rightarrow> executor \<Rightarrow> (string \<times> Job) list" where
  "active_runs f ex = filter (\<lambda>kj. work (snd kj) = f) (active ex)"

text \<open>
  Every entry stands under the name made from its work function, and no two active
  entries share a name.
\<close>

definition keyed :: "(string \<times> Job) list \<Rightarrow> bool" where
  "keyed kjs \<longleftrightarrow> (\<forall>kj\<in>set kjs. fst kj = ''cron:'' @ short_name (work (snd kj)))"

definition executor_ok :: "executor \<Rightarrow> bool" where
  "executor_ok ex \<longleftrightarrow> distinct (map fst (active ex)) \<and> keyed (active ex) \<and> keyed (delayed ex)"

section \<open>One execution of a submitted closure, with its watchdog\<close>

text \<open>
  The closure handed to \<open>bgrun.Run\<close> calls \<open>timeout\<close>, which makes the unbuffered
  channel \<open>done\<close> and starts the watchdog goroutine; then it calls the work function,
  logs the error if there is one, and sends on \<open>done\<close>. The watchdog waits in a
  \<open>select\<close> for its timer or for a value on \<open>done\<close>.

  The work function is given by what it does in one run: the time it takes and the
  error it returns.
\<close>

record run =
  took :: Duration
  err :: "string option"

text \<open>
  The two log lines: \<open>zlog.Errorf("cron task %s is taking longer than %s", f, d)\<close> of the
  watchdog and \<open>l.Error(err)\<close> of the closure.
\<close>

datatype log_entry = Task_timeout string Duration | Task_error string

text \<open>
  Where the watchdog goroutine is: in its \<open>select\<close>, gone after the timer case, or
  gone after the receive from \<open>done\<close> and \<open>t.Stop()\<close>.
\<close>

datatype wd_pc = WdSelect | WdTimedOut | WdStopped

text \<open>
  Where the closure is: in the work function, at the send on \<open>done\<close>, or returned.
\<close>

datatype wr_pc = WrWork | WrSend | WrReturned

record exec_state =
  clock :: Duration
  wd :: wd_pc
  wr :: wr_pc
  logs :: "log_entry list"

text \<open>The state right after \<open>timeout\<close> has returned \<open>done\<close>; the clock counts from there.\<close>

definition exec_init :: exec_state where
  "exec_init = \<lparr>clock = 0, wd = WdSelect, wr = WrWork, logs = []\<rparr>"

text \<open>The case \<open><-t.C\<close>: the timer has run for \<open>d\<close>.\<close>

definition can_fire :: "Job \<Rightarrow> exec_state \<Rightarrow> bool" where
  "can_fire job s \<longleftrightarrow> wd s = WdSelect \<and> wd_after job \<le> clock s"

definition fire :: "Job \<Rightarrow> exec_state \<Rightarrow> exec_state" where
  "fire job s =
     s\<lparr>wd := WdTimedOut, logs := logs s @ [Task_timeout (wd_name job) (wd_after job)]\<rparr>"

text \<open>The work function returns; the closure logs its error and comes to the send.\<close>

definition can_finish :: "run \<Rightarrow> exec_state \<Rightarrow> bool" where
  "can_finish r s \<longleftrightarrow> wr s = WrWork \<and> took r \<le> clock s"

definition finish :: "run \<Rightarrow> exec_state \<Rightarrow> exec_state" where
  "finish r s =
     s\<lparr>wr := WrSend,
       logs := logs s @ (case err r of None \<Rightarrow> [] | Some e \<Rightarrow> [Task_error e])\<rparr>"

text \<open>
  The send on the unbuffered channel goes through only together with a receive: the
  watchdog must be in its \<open>select\<close>. Then the closure returns and the watchdog stops
  its timer.
\<close>

definition can_sync :: "exec_state \<Rightarrow> bool" where
  "can_sync s \<longleftrightarrow> wr s = WrSend \<and> wd s = WdSelect"

definition sync :: "exec_state \<Rightarrow> exec_state" where
  "sync s = s\<lparr>wr := WrReturned, wd := WdStopped\<rparr>"

text \<open>
  When neither goroutine can move, time passes up to the next moment at which one can:
  the end of the timer, the end of the work function, or never.
\<close>

definition wait_until :: "Job \<Rightarrow> run \<Rightarrow> exec_state \<Rightarrow> Duration option" where
  "wait_until job r s =
     (if wd s = WdSelect then
        (if wr s = WrWork then Some (min (wd_after job) (took r)) else Some (wd_after job))
      else if wr s = WrWork then Some (took r)
      else None)"

text \<open>
  The states that can follow a state. With the timer run out and the send ready, the
  \<open>select\<close> may take either case. A state with no successor stays as it is for ever.
\<close>

definition next_states :: "Job \<Rightarrow> run \<Rightarrow> exec_state \<Rightarrow> exec_state list" where
  "next_states job r s =
     (if can_fire job s then [fire job s] else [])
     @ (if can_finish r s then [finish r s] else [])
     @ (if can_sync s then [sync s] else [])
     @ (if \<not> can_fire job s \<and> \<not> can_finish r s \<and> \<not> can_sync s then
          (case wait_until job r s of None \<Rightarrow> [] | Some c \<Rightarrow> [s\<lparr>clock := c\<rparr>])
        else [])"

inductive reachable :: "Job \<Rightarrow> run \<Rightarrow> exec_state \<Rightarrow> bool" for job :: Job and r :: run where
  start: "reachable job r exec_init"
| step: "reachable job r s \<Longrightarrow> s' \<in> set (next_states job r s) \<Longrightarrow> reachable job r s'"

text \<open>The states met within \<open>n\<close> steps, for running the model.\<close>

fun explore :: "Job \<Rightarrow> run \<Rightarrow> nat \<Rightarrow> exec_state list" where
  "explore job r 0 = [exec_init]"
| "explore job r (Suc n) =
     remdups (explore job r n @ concat (map (next_states job r) (explore job r n)))"

section \<open>The memstore: salts and sessions\<close>

text \<open>
  Modelled from the spec: the salt pair of \<open>goatcounter.Memstore\<close>, which is missing from
  the sources (only its test \<open>TestBackendCountSessions\<close> is there). A salt is a byte
  string; times and durations are nanoseconds.
\<close>

type_synonym salt = string

text \<open>
  Modelled from the spec: the entry of the recency index for one site and fingerprint,
  missing from the sources: the session id, the time the session was last seen, and the
  hash the session was minted from, with which a later hash under the current or the
  previous salt is compared. The test wants \<open>FirstVisit\<close> on every hit, and every hit
  of the test has a path of its own, also the later hits of a session: the entry keeps
  the paths met in the session, and a hit is a first visit when its path is new there.
\<close>

record 'h entry =
  session :: nat
  last_seen :: int
  minted_under :: 'h
  paths :: "string list"

text \<open>
  Modelled from the spec: the state of the memstore, missing from the sources: the
  salt pair with the time of its last rotation, the recency index, and the number of
  session ids minted. The test expects the session ids in sequence (\<open>first\<close> plus 1, 2,
  3, ...), so an id is the count of ids minted so far, taken from \<open>first\<close>.
\<close>

record 'h memstore =
  current :: salt
  previous :: salt
  lastRotated :: int
  recency :: "int \<times> string \<rightharpoonup> 'h entry"
  minted :: nat

text \<open>Modelled from the spec: \<open>GetSalt\<close>, missing from the sources: the salt pair.\<close>

definition GetSalt :: "'h memstore \<Rightarrow> salt \<times> salt" where
  "GetSalt st = (current st, previous st)"

text \<open>
  Modelled from the spec: \<open>RefreshSalt\<close>, missing from the sources. It moves the
  current salt to the previous one and takes a new current salt if and only if the
  rotation interval has passed since the last rotation, and does nothing otherwise.
  The new salt is a random draw; here it is given.
\<close>

definition RefreshSalt :: "Duration \<Rightarrow> int \<Rightarrow> salt \<Rightarrow> 'h memstore \<Rightarrow> 'h memstore" where
  "RefreshSalt interval now fresh st =
     (if interval \<le> now - lastRotated st
      then st\<lparr>previous := current st, current := fresh, lastRotated := now\<rparr>
      else st)"

text \<open>
  Modelled from the spec: the session assigner, missing from the sources. The hash
  \<open>H\<close> of salt, site and fingerprint and the continuity window are given. With an entry
  for the site and fingerprint that was seen within the window and was minted from the
  hash under the current or the previous salt, the session id is used again and the
  entry is seen now. Otherwise a new id is minted and recorded with the hash under the
  current salt. As the test requires, a session minted two salts ago is not matched,
  and the first-visit flag of a hit in a running session says that its path is new in
  that session.
\<close>

definition Assign ::
  "(salt \<Rightarrow> int \<Rightarrow> string \<Rightarrow> 'h) \<Rightarrow> Duration \<Rightarrow> int \<Rightarrow> string \<Rightarrow> string \<Rightarrow> int \<Rightarrow> 'h memstore
     \<Rightarrow> (nat \<times> bool) \<times> 'h memstore" where
  "Assign H window si fp pa now st =
     (let mint =
        ((Suc (minted st), True),
         st\<lparr>minted := Suc (minted st),
            recency := (recency st)((si, fp) \<mapsto>
              \<lparr>session = Suc (minted st), last_seen = now,
               minted_under = H (current st) si fp, paths = [pa]\<rparr>)\<rparr>)
      in case recency st (si, fp) of
           None \<Rightarrow> mint
         | Some e \<Rightarrow>
             if now - last_seen e \<le> window
                \<and> (minted_under e = H (current st) si fp \<or> minted_under e = H (previous st) si fp)
             then ((session e, pa \<notin> set (paths e)),
                   st\<lparr>recency := (recency st)((si, fp) \<mapsto>
                        e\<lparr>last_seen := now, paths := pa # paths e\<rparr>)\<rparr>)
             else mint)"

text \<open>
  Modelled from the spec: the ingestion boundary \<open>RecordHit\<close>, missing from the sources,
  for a sequence of hits: each is assigned its session in turn.
\<close>

record request =
  site :: int
  fingerprint :: string
  path :: string
  at :: int

fun RecordHits ::
  "(salt \<Rightarrow> int \<Rightarrow> string \<Rightarrow> 'h) \<Rightarrow> Duration \<Rightarrow> request list \<Rightarrow> 'h memstore
     \<Rightarrow> (nat \<times> bool) list \<times> 'h memstore" where
  "RecordHits H window [] st = ([], st)"
| "RecordHits H window (q # qs) st =
     (case Assign H window (site q) (fingerprint q) (path q) (at q) st of
        (res, st1) \<Rightarrow>
          (case RecordHits H window qs st1 of (ress, st2) \<Rightarrow> (res # ress, st2)))"

text \<open>The paths of the earlier hits of a site and fingerprint in a sequence.\<close>

definition earlier_paths :: "int \<times> string \<Rightarrow> request list \<Rightarrow> nat \<Rightarrow> string list" where
  "earlier_paths p qs j =
     map path (filter (\<lambda>q. (site q, fingerprint q) = p) (take j qs))"

text \<open>
  A session is open for a site and fingerprint at a moment when a hit at that moment
  would be assigned to it.
\<close>

definition open_session ::
  "(salt \<Rightarrow> int \<Rightarrow> string \<Rightarrow> 'h) \<Rightarrow> Duration \<Rightarrow> int \<Rightarrow> string \<Rightarrow> int \<Rightarrow> 'h memstore \<Rightarrow> nat option" where
  "open_session H window si fp now st =
     (case recency st (si, fp) of
        None \<Rightarrow> None
      | Some e \<Rightarrow>
          if now - last_seen e \<le> window
             \<and> (minted_under e = H (current st) si fp \<or> minted_under e = H (previous st) si fp)
          then Some (session e) else None)"

subsection \<open>The test of the sessions\<close>

text \<open>
  The parts of \<open>TestBackendCountSessions\<close> that speak of sessions. Of a stored hit the
  test reads the session and the first-visit flag. \<open>checkSess\<close> reports a hit whose
  flag is false, and compares the sessions, sorted, with the wanted ones, sorted; a
  session is written as its distance from \<open>first\<close>. The result is the list of errors.
\<close>

record Hit =
  Session :: nat
  FirstVisit :: bool

definition checkSess :: "Hit list \<Rightarrow> nat list \<Rightarrow> string list" where
  "checkSess hits wantInt =
     concat (map (\<lambda>h. if \<not> FirstVisit h then [''FirstVisit is false''] else []) hits)
     @ (if sort wantInt \<noteq> sort (map Session hits) then [''wrong session''] else [])"

text \<open>
  The ideal hash of the test runs: no two inputs collide. \<open>send(ctx, ua)\<close> is a hit of
  the site of \<open>ctx\<close> with the user agent as its fingerprint, at a fresh path.
\<close>

definition ideal_hash :: "salt \<Rightarrow> int \<Rightarrow> string \<Rightarrow> salt \<times> int \<times> string" where
  "ideal_hash s si fp = (s, si, fp)"

definition send :: "int \<Rightarrow> string \<Rightarrow> string \<Rightarrow> int \<Rightarrow> request" where
  "send si ua pa now = \<lparr>site = si, fingerprint = ua, path = pa, at = now\<rparr>"

definition to_hits :: "(nat \<times> bool) list \<Rightarrow> Hit list" where
  "to_hits rs = map (\<lambda>r. \<lparr>Session = fst r, FirstVisit = snd r\<rparr>) rs"

definition store0 :: "(salt \<times> int \<times> string) memstore" where
  "store0 = \<lparr>current = ''salt-1'', previous = ''salt-0'', lastRotated = 0,
             recency = Map.empty, minted = 0\<rparr>"

text \<open>The first seven hits of the test, one hour after the start.\<close>

definition sends1 :: "request list" where
  "sends1 =
     [send 1 ''test'' ''/a'' (1 * Hour), send 1 ''test'' ''/b'' (1 * Hour),
      send 1 ''other'' ''/c'' (1 * Hour), send 2 ''test'' ''/d'' (1 * Hour),
      send 2 ''test'' ''/e'' (1 * Hour), send 1 ''test'' ''/f'' (1 * Hour),
      send 1 ''other'' ''/g'' (1 * Hour)]"

text \<open>The two hits after the first \<open>rotate\<close>, and the two after the second.\<close>

definition sends2 :: "request list" where
  "sends2 = [send 1 ''test'' ''/h'' (13 * Hour), send 2 ''test'' ''/i'' (13 * Hour)]"

definition sends3 :: "request list" where
  "sends3 = [send 1 ''test'' ''/j'' (25 * Hour), send 2 ''test'' ''/k'' (25 * Hour)]"

text \<open>
  The three parts of the test, with a rotation interval and a continuity window of 12
  hours: the call of \<open>RefreshSalt\<close> one hour after the start and the first seven hits;
  \<open>rotate\<close>, 12 hours later, and two hits; \<open>rotate\<close> again and two hits. Each part
  gives the sessions and flags of its hits and the memstore it leaves.
\<close>

definition phase1 :: "(nat \<times> bool) list \<times> (salt \<times> int \<times> string) memstore" where
  "phase1 = RecordHits ideal_hash (12 * Hour) sends1
              (RefreshSalt (12 * Hour) (1 * Hour) ''salt-x'' store0)"

definition phase2 :: "(nat \<times> bool) list \<times> (salt \<times> int \<times> string) memstore" where
  "phase2 = RecordHits ideal_hash (12 * Hour) sends2
              (RefreshSalt (12 * Hour) (13 * Hour) ''salt-2'' (snd phase1))"

definition phase3 :: "(nat \<times> bool) list \<times> (salt \<times> int \<times> string) memstore" where
  "phase3 = RecordHits ideal_hash (12 * Hour) sends3
              (RefreshSalt (12 * Hour) (25 * Hour) ''salt-3'' (snd phase2))"

section \<open>Registration and start\<close>

text \<open>
  C10. Once the scheduler has been started (\<open>started = 1\<close>), \<open>PersistInterval\<close> panics and
  leaves the state, and so the task list, as it was. Before that it returns normally and
  the task list has grown by exactly one task at its end, the persist task with the
  given period.
\<close>

theorem PersistInterval_guard:
  "(started s = 1 \<longrightarrow>
      PersistInterval d s = (s, Some ''cron.PersistInterval: cron already started''))
   \<and> (started s \<noteq> 1 \<longrightarrow>
      snd (PersistInterval d s) = None
      \<and> Tasks (fst (PersistInterval d s))
          = Tasks s @ [\<lparr>Desc = ''persist hits'', Fun = PersistAndStat, Period = d\<rparr>]
      \<and> length (Tasks (fst (PersistInterval d s))) = Suc (length (Tasks s))
      \<and> started (fst (PersistInterval d s)) = started s
      \<and> stopped (fst (PersistInterval d s)) = stopped s
      \<and> goroutines (fst (PersistInterval d s)) = goroutines s)"
  by (simp add: PersistInterval_def)

theorem PersistInterval_guard_witness:
  "started (fst (RunBackground cron_init)) = 1
   \<and> PersistInterval (10 * Second) (fst (RunBackground cron_init))
       = (fst (RunBackground cron_init), Some ''cron.PersistInterval: cron already started'')
   \<and> started cron_init \<noteq> 1
   \<and> snd (PersistInterval (10 * Second) cron_init) = None
   \<and> map Fun (Tasks (fst (PersistInterval (10 * Second) cron_init)))
       = [DataRetention, renewACME, vacuumDeleted, oldExports, sessions, EmailReports,
          PersistAndStat]"
proof -
  have a: "started (fst (RunBackground cron_init)) = 1"
    by (simp add: RunBackground_def Let_def)
  have b: "started cron_init \<noteq> 1"
    by (simp add: cron_init_def)
  have c: "map Fun (Tasks cron_init)
      = [DataRetention, renewACME, vacuumDeleted, oldExports, sessions, EmailReports]"
    by (simp add: cron_init_def Tasks_init_def)
  from PersistInterval_guard [of "fst (RunBackground cron_init)" "10 * Second"] a
  have d: "PersistInterval (10 * Second) (fst (RunBackground cron_init))
       = (fst (RunBackground cron_init), Some ''cron.PersistInterval: cron already started'')"
    by blast
  from PersistInterval_guard [of cron_init "10 * Second"] b
  have e: "snd (PersistInterval (10 * Second) cron_init) = None
      \<and> Tasks (fst (PersistInterval (10 * Second) cron_init))
          = Tasks cron_init @ [\<lparr>Desc = ''persist hits'', Fun = PersistAndStat, Period = 10 * Second\<rparr>]"
    by blast
  from a b c d e show ?thesis by simp
qed

text \<open>
  C5 as stated fails: \<open>RunBackground\<close> never reads \<open>started\<close>. Called on the state
  that a first call has left, it returns without a panic and the number of loops has
  doubled, from 7 to 14.
\<close>

theorem RunBackground_again_counterexample:
  "started (fst (RunBackground cron_init)) = 1
   \<and> snd (RunBackground (fst (RunBackground cron_init))) = None
   \<and> length (goroutines (fst (RunBackground cron_init))) = 7
   \<and> length (goroutines (fst (RunBackground (fst (RunBackground cron_init))))) = 14"
  by (simp add: RunBackground_def Let_def cron_init_def Tasks_init_def)

text \<open>
  C5, amended. \<open>RunBackground\<close> has no guard: in every state, also one in which the
  scheduler has been started, it returns without a panic, leaves \<open>started\<close> at 1 and
  starts one more set of loops, the \<open>PersistRunner\<close> loop and a timer loop for each task.
\<close>

theorem RunBackground_no_guard:
  "snd (RunBackground s) = None
   \<and> started (fst (RunBackground s)) = 1
   \<and> goroutines (fst (RunBackground s))
        = goroutines s @ PersistRunnerLoop # map TimerLoop (Tasks s)
   \<and> Tasks (fst (RunBackground s)) = Tasks s
   \<and> stopped (fst (RunBackground s)) = stopped s"
  by (simp add: RunBackground_def Let_def)

section \<open>Stopping and panics in the loops\<close>

lemma submitted_append: "submitted (xs @ ys) = submitted xs @ submitted ys"
  by (induction xs rule: submitted.induct) simp_all

lemma timer_loop_quiet_append:
  "\<forall>w\<in>set ws. quiet w \<Longrightarrow> timer_loop t (ws @ ws2) = timer_loop t ws @ timer_loop t ws2"
  by (induction ws) (simp_all add: quiet_def)

lemma timer_loop_quiet_submitted:
  "\<forall>w\<in>set ws. quiet w \<Longrightarrow> length (submitted (timer_loop t ws)) = length ws"
  by (induction ws) (simp_all add: quiet_def)

lemma timer_loop_no_crash: "\<not> list_ex is_Crashed (timer_loop t ws)"
  by (induction ws) (simp_all split: call_outcome.split)

lemma timer_loop_polls:
  "length (filter is_Polled (timer_loop t ws)) = length (filter is_wait (timer_loop t ws))"
  by (induction ws) (simp_all split: call_outcome.split)

lemma persist_loop_no_poll: "filter is_Polled (persist_loop ws) = []"
  by (induction ws) (simp_all split: call_outcome.split)

lemma persist_loop_submits:
  "\<forall>w\<in>set ws. run_call w = Returns \<Longrightarrow> length (submitted (persist_loop ws)) = length ws"
  by (induction ws) simp_all

lemma timer_loop_stop_bound:
  "i < length ws \<Longrightarrow> stop_flag (ws ! i) = 1 \<Longrightarrow>
     length (submitted (timer_loop t ws)) \<le> i \<and> last (timer_loop t ws) = Returned"
proof (induction ws arbitrary: i)
  case Nil
  then show ?case by simp
next
  case (Cons w ws)
  show ?case
  proof (cases "stop_flag w = 1")
    case True
    then show ?thesis by simp
  next
    case False
    with Cons.prems obtain k where k: "i = Suc k"
      by (cases i) auto
    with Cons.prems have "k < length ws" and "stop_flag (ws ! k) = 1"
      by simp_all
    from Cons.IH [OF this]
    have ih: "length (submitted (timer_loop t ws)) \<le> k" "last (timer_loop t ws) = Returned"
      by simp_all
    from \<open>k < length ws\<close> have ne: "timer_loop t ws \<noteq> []"
      by (cases ws) auto
    show ?thesis
      using False k ih ne by (cases "run_call w") simp_all
  qed
qed

text \<open>
  C4 as stated fails for the loop on \<open>PersistRunner.Run\<close>: it never reads \<open>stopped\<close>.
  With the flag set at both of two wake-ups, it calls \<open>bgrun.Run\<close> twice, polls nothing
  and has not returned.
\<close>

theorem PersistRunner_ignores_stop_counterexample:
  "stop_flag \<lparr>stop_flag = 1, run_call = Returns\<rparr> = 1
   \<and> map fst (submitted (run_goroutine PersistRunnerLoop
        [\<lparr>stop_flag = 1, run_call = Returns\<rparr>, \<lparr>stop_flag = 1, run_call = Returns\<rparr>]))
       = [''cron:PersistAndStat'', ''cron:PersistAndStat'']
   \<and> filter is_Polled (run_goroutine PersistRunnerLoop
        [\<lparr>stop_flag = 1, run_call = Returns\<rparr>, \<lparr>stop_flag = 1, run_call = Returns\<rparr>]) = []
   \<and> Returned \<notin> set (run_goroutine PersistRunnerLoop
        [\<lparr>stop_flag = 1, run_call = Returns\<rparr>, \<lparr>stop_flag = 1, run_call = Returns\<rparr>])"
  by simp

text \<open>
  C4, amended. Each timer loop reads the stop flag once for each sleep, right after it.
  Once it reads the flag as set it returns, having called \<open>bgrun.Run\<close> only at earlier
  wake-ups: after undisturbed wake-ups, the one that finds the flag set adds a sleep of
  one period, the poll and the return, and nothing more whatever follows. The loop on
  \<open>PersistRunner.Run\<close> never reads the flag and calls \<open>bgrun.Run\<close> at every signal.
\<close>

theorem timer_loop_polls_and_stops:
  "length (filter is_Polled (timer_loop t ws)) = length (filter is_wait (timer_loop t ws))
   \<and> (i < length ws \<and> stop_flag (ws ! i) = 1 \<longrightarrow>
        length (submitted (timer_loop t ws)) \<le> i \<and> last (timer_loop t ws) = Returned)
   \<and> ((\<forall>w\<in>set qs. quiet w) \<and> stop_flag w1 = 1 \<longrightarrow>
        timer_loop t (qs @ w1 # rest)
          = timer_loop t qs @ [Slept (Period t), Polled 1, Returned]
        \<and> length (submitted (timer_loop t (qs @ w1 # rest))) = length qs)
   \<and> filter is_Polled (persist_loop ws) = []
   \<and> ((\<forall>w\<in>set ws. run_call w = Returns) \<longrightarrow>
        length (submitted (persist_loop ws)) = length ws)"
proof -
  have a: "(\<forall>w\<in>set qs. quiet w) \<and> stop_flag w1 = 1 \<longrightarrow>
        timer_loop t (qs @ w1 # rest)
          = timer_loop t qs @ [Slept (Period t), Polled 1, Returned]
        \<and> length (submitted (timer_loop t (qs @ w1 # rest))) = length qs"
    by (simp add: timer_loop_quiet_append submitted_append timer_loop_quiet_submitted)
  show ?thesis
    using a timer_loop_polls [of t ws] timer_loop_stop_bound [of i ws t]
      persist_loop_no_poll [of ws] persist_loop_submits [of ws]
    by blast
qed

theorem timer_loop_polls_and_stops_witness:
  "(1::nat) < length [\<lparr>stop_flag = 0, run_call = Returns\<rparr>, \<lparr>stop_flag = 1, run_call = Returns\<rparr>,
                      \<lparr>stop_flag = 0, run_call = Returns\<rparr>]
   \<and> stop_flag ([\<lparr>stop_flag = 0, run_call = Returns\<rparr>, \<lparr>stop_flag = 1, run_call = Returns\<rparr>,
                  \<lparr>stop_flag = 0, run_call = Returns\<rparr>] ! 1) = 1
   \<and> quiet \<lparr>stop_flag = 0, run_call = Returns\<rparr>
   \<and> map run_call [\<lparr>stop_flag = 0, run_call = Returns\<rparr>, \<lparr>stop_flag = 1, run_call = Returns\<rparr>,
                    \<lparr>stop_flag = 0, run_call = Returns\<rparr>] = [Returns, Returns, Returns]
   \<and> length (submitted (timer_loop (Tasks_init ! 4)
        [\<lparr>stop_flag = 0, run_call = Returns\<rparr>, \<lparr>stop_flag = 1, run_call = Returns\<rparr>,
         \<lparr>stop_flag = 0, run_call = Returns\<rparr>])) \<le> 1
   \<and> last (timer_loop (Tasks_init ! 4)
        [\<lparr>stop_flag = 0, run_call = Returns\<rparr>, \<lparr>stop_flag = 1, run_call = Returns\<rparr>,
         \<lparr>stop_flag = 0, run_call = Returns\<rparr>]) = Returned
   \<and> timer_loop (Tasks_init ! 4)
        ([\<lparr>stop_flag = 0, run_call = Returns\<rparr>] @ \<lparr>stop_flag = 1, run_call = Returns\<rparr>
          # [\<lparr>stop_flag = 0, run_call = Returns\<rparr>])
       = timer_loop (Tasks_init ! 4) [\<lparr>stop_flag = 0, run_call = Returns\<rparr>]
         @ [Slept (Period (Tasks_init ! 4)), Polled 1, Returned]
   \<and> length (submitted (persist_loop
        [\<lparr>stop_flag = 0, run_call = Returns\<rparr>, \<lparr>stop_flag = 1, run_call = Returns\<rparr>,
         \<lparr>stop_flag = 0, run_call = Returns\<rparr>])) = 3"
proof -
  let ?q = "\<lparr>stop_flag = 0, run_call = Returns\<rparr>"
  let ?s = "\<lparr>stop_flag = 1, run_call = Returns\<rparr>"
  have h1: "(1::nat) < length [?q, ?s, ?q] \<and> stop_flag ([?q, ?s, ?q] ! 1) = 1"
    by simp
  have h2: "(\<forall>w\<in>set [?q]. quiet w) \<and> stop_flag ?s = 1"
    by (simp add: quiet_def)
  have h3: "\<forall>w\<in>set [?q, ?s, ?q]. run_call w = Returns"
    by simp
  from timer_loop_polls_and_stops [of "Tasks_init ! 4" "[?q, ?s, ?q]" 1 "[?q]" ?s "[?q]"] h1 h2 h3
  show ?thesis by simp
qed

text \<open>
  C3 as stated fails: a panic that reaches the boundary of a timer loop ends the loop.
  With a panic at the first of two wake-ups, the task ''cycle sessions'' is submitted
  once, the panic is logged, the goroutine returns, and the second wake-up is never
  reached.
\<close>

theorem timer_loop_panic_counterexample:
  "timer_loop \<lparr>Desc = ''cycle sessions'', Fun = sessions, Period = 1 * Minute\<rparr>
      [\<lparr>stop_flag = 0, run_call = Panics ''boom''\<rparr>, \<lparr>stop_flag = 0, run_call = Returns\<rparr>]
    = [Slept (1 * Minute), Polled 0,
       Submitted ''cron:sessions''
         \<lparr>wd_name = ''sessions'', wd_after = 10 * Second, work = sessions\<rparr>,
       Recovered ''boom'', Returned]
   \<and> length (submitted (timer_loop \<lparr>Desc = ''cycle sessions'', Fun = sessions, Period = 1 * Minute\<rparr>
      [\<lparr>stop_flag = 0, run_call = Panics ''boom''\<rparr>, \<lparr>stop_flag = 0, run_call = Returns\<rparr>])) = 1"
  by (simp add: ID_def FuncName_def)

text \<open>
  C3, amended. A panic that reaches the goroutine of a timer loop is caught by the
  deferred \<open>zlog.Recover\<close> and logged, and the goroutine returns: after undisturbed
  wake-ups, the trace ends with the call of that wake-up, the recovery and the return,
  whatever wake-ups would follow, so the loop does not run the task again. No panic
  leaves a timer loop, so the process goes on, and the trace of every other loop is
  what it is without the panic.
\<close>

theorem timer_loop_panic_ends_loop:
  "((\<forall>w\<in>set qs. quiet w) \<and> stop_flag w1 \<noteq> 1 \<and> run_call w1 = Panics p \<longrightarrow>
      timer_loop t (qs @ w1 # rest)
        = timer_loop t qs
          @ [Slept (Period t), Polled (stop_flag w1),
             Submitted (''cron:'' @ ID t) \<lparr>wd_name = ID t, wd_after = 10 * Second, work = Fun t\<rparr>,
             Recovered p, Returned]
      \<and> length (submitted (timer_loop t (qs @ w1 # rest))) = Suc (length qs))
   \<and> \<not> list_ex is_Crashed (timer_loop t ws)
   \<and> (j < length gs \<and> j < length wss \<and> j \<noteq> i \<longrightarrow>
        run_all gs (wss[i := ws']) ! j = run_all gs wss ! j)"
proof -
  have a: "(\<forall>w\<in>set qs. quiet w) \<and> stop_flag w1 \<noteq> 1 \<and> run_call w1 = Panics p \<longrightarrow>
      timer_loop t (qs @ w1 # rest)
        = timer_loop t qs
          @ [Slept (Period t), Polled (stop_flag w1),
             Submitted (''cron:'' @ ID t) \<lparr>wd_name = ID t, wd_after = 10 * Second, work = Fun t\<rparr>,
             Recovered p, Returned]
      \<and> length (submitted (timer_loop t (qs @ w1 # rest))) = Suc (length qs)"
    by (simp add: timer_loop_quiet_append submitted_append timer_loop_quiet_submitted)
  have b: "j < length gs \<and> j < length wss \<and> j \<noteq> i \<longrightarrow>
        run_all gs (wss[i := ws']) ! j = run_all gs wss ! j"
    by (simp add: run_all_def)
  from a b timer_loop_no_crash [of t ws] show ?thesis
    by blast
qed

theorem timer_loop_panic_ends_loop_witness:
  "quiet \<lparr>stop_flag = 0, run_call = Returns\<rparr>
   \<and> stop_flag \<lparr>stop_flag = 0, run_call = Panics ''boom''\<rparr> \<noteq> 1
   \<and> run_call \<lparr>stop_flag = 0, run_call = Panics ''boom''\<rparr> = Panics ''boom''
   \<and> map fst (submitted (timer_loop (Tasks_init ! 4)
        ([\<lparr>stop_flag = 0, run_call = Returns\<rparr>] @ \<lparr>stop_flag = 0, run_call = Panics ''boom''\<rparr>
          # [\<lparr>stop_flag = 0, run_call = Returns\<rparr>])))
       = [''cron:sessions'', ''cron:sessions'']
   \<and> last (timer_loop (Tasks_init ! 4)
        ([\<lparr>stop_flag = 0, run_call = Returns\<rparr>] @ \<lparr>stop_flag = 0, run_call = Panics ''boom''\<rparr>
          # [\<lparr>stop_flag = 0, run_call = Returns\<rparr>])) = Returned
   \<and> (1::nat) < length [TimerLoop (Tasks_init ! 4), TimerLoop (Tasks_init ! 0)]
   \<and> (1::nat) < length [[\<lparr>stop_flag = 0, run_call = Returns\<rparr>], [\<lparr>stop_flag = 0, run_call = Returns\<rparr>]]
   \<and> (1::nat) \<noteq> 0
   \<and> run_all [TimerLoop (Tasks_init ! 4), TimerLoop (Tasks_init ! 0)]
        ([[\<lparr>stop_flag = 0, run_call = Returns\<rparr>], [\<lparr>stop_flag = 0, run_call = Returns\<rparr>]]
           [0 := [\<lparr>stop_flag = 0, run_call = Panics ''boom''\<rparr>]]) ! 1
       = run_all [TimerLoop (Tasks_init ! 4), TimerLoop (Tasks_init ! 0)]
           [[\<lparr>stop_flag = 0, run_call = Returns\<rparr>], [\<lparr>stop_flag = 0, run_call = Returns\<rparr>]] ! 1"
proof -
  let ?q = "\<lparr>stop_flag = 0, run_call = Returns\<rparr>"
  let ?p = "\<lparr>stop_flag = 0, run_call = Panics ''boom''\<rparr>"
  let ?gs = "[TimerLoop (Tasks_init ! 4), TimerLoop (Tasks_init ! 0)]"
  have h1: "(\<forall>w\<in>set [?q]. quiet w) \<and> stop_flag ?p \<noteq> 1 \<and> run_call ?p = Panics ''boom''"
    by (simp add: quiet_def)
  have h2: "(1::nat) < length ?gs \<and> (1::nat) < length [[?q], [?q]] \<and> (1::nat) \<noteq> 0"
    by simp
  have t4: "ID (Tasks_init ! 4) = ''sessions''"
    by (simp add: Tasks_init_def ID_def FuncName_def)
  from timer_loop_panic_ends_loop
         [of "[?q]" ?p "''boom''" "Tasks_init ! 4" "[?q]" "[]" 1 ?gs "[[?q], [?q]]" 0 "[?p]"]
       h1 h2
  have "timer_loop (Tasks_init ! 4) ([?q] @ ?p # [?q])
        = timer_loop (Tasks_init ! 4) [?q]
          @ [Slept (Period (Tasks_init ! 4)), Polled (stop_flag ?p),
             Submitted (''cron:'' @ ID (Tasks_init ! 4))
               \<lparr>wd_name = ID (Tasks_init ! 4), wd_after = 10 * Second, work = Fun (Tasks_init ! 4)\<rparr>,
             Recovered ''boom'', Returned]"
    and "run_all ?gs ([[?q], [?q]][0 := [?p]]) ! 1 = run_all ?gs [[?q], [?q]] ! 1"
    by blast+
  with h1 h2 t4 show ?thesis
    by (simp add: submitted_append)
qed

section \<open>The names under which the loops submit\<close>

lemma Replace_first_prefix: "Replace_first (old @ x) old [] = x"
proof (cases "old @ x")
  case Nil
  then show ?thesis by simp
next
  case (Cons a list)
  then have t: "take (length old) (a # list) = old" and d: "drop (length old) (a # list) = x"
    by (metis append_eq_conv_conj)+
  show ?thesis
    unfolding Cons using t d by simp
qed

lemma ID_short: "ID t = short_name (Fun t)"
  by (simp add: ID_def FuncName_def Replace_first_prefix)

lemma persist_loop_jobs:
  "(k, job) \<in> set (submitted (persist_loop ws)) \<Longrightarrow>
     k = ''cron:'' @ short_name (work job) \<and> wd_name job = short_name (work job)
     \<and> wd_after job = 10 * Second"
  by (induction ws) (auto split: call_outcome.splits)

lemma timer_loop_jobs:
  "(k, job) \<in> set (submitted (timer_loop t ws)) \<Longrightarrow>
     k = ''cron:'' @ short_name (work job) \<and> wd_name job = short_name (work job)
     \<and> wd_after job = 10 * Second"
  by (induction ws) (auto simp: ID_short split: call_outcome.splits if_splits)

lemma submitted_jobs:
  "(k, job) \<in> set (submitted (run_goroutine g ws)) \<Longrightarrow>
     k = ''cron:'' @ short_name (work job) \<and> wd_name job = short_name (work job)
     \<and> wd_after job = 10 * Second"
  by (cases g) (auto dest: persist_loop_jobs timer_loop_jobs)

section \<open>The watchdog warns and the closure blocks\<close>

lemma next_states_iff:
  "s' \<in> set (next_states job r s) \<longleftrightarrow>
     can_fire job s \<and> s' = fire job s
     \<or> can_finish r s \<and> s' = finish r s
     \<or> can_sync s \<and> s' = sync s
     \<or> \<not> can_fire job s \<and> \<not> can_finish r s \<and> \<not> can_sync s
        \<and> (\<exists>c. wait_until job r s = Some c \<and> s' = s\<lparr>clock := c\<rparr>)"
  unfolding next_states_def
  by (cases "can_fire job s"; cases "can_finish r s"; cases "can_sync s";
      cases "wait_until job r s") auto

text \<open>The five states of an execution that overruns its watchdog.\<close>

lemma overrun_states:
  assumes d: "0 \<le> wd_after job" "wd_after job < took r"
    and re: "reachable job r s"
  shows "s = exec_init
    \<or> s = \<lparr>clock = wd_after job, wd = WdSelect, wr = WrWork, logs = []\<rparr>
    \<or> s = \<lparr>clock = wd_after job, wd = WdTimedOut, wr = WrWork,
            logs = [Task_timeout (wd_name job) (wd_after job)]\<rparr>
    \<or> s = \<lparr>clock = took r, wd = WdTimedOut, wr = WrWork,
            logs = [Task_timeout (wd_name job) (wd_after job)]\<rparr>
    \<or> s = \<lparr>clock = took r, wd = WdTimedOut, wr = WrSend,
            logs = Task_timeout (wd_name job) (wd_after job)
                   # (case err r of None \<Rightarrow> [] | Some e \<Rightarrow> [Task_error e])\<rparr>"
  using re
proof (induction rule: reachable.induct)
  case start
  then show ?case by simp
next
  case (step s s')
  from step.IH step.hyps(2) d show ?case
    by (elim disjE)
       (auto simp: next_states_iff can_fire_def can_finish_def can_sync_def wait_until_def
          fire_def finish_def sync_def exec_init_def min_def split: if_splits)
qed

lemma overrun_run:
  assumes d: "0 \<le> wd_after job" "wd_after job < took r"
  shows "reachable job r \<lparr>clock = took r, wd = WdTimedOut, wr = WrSend,
            logs = Task_timeout (wd_name job) (wd_after job)
                   # (case err r of None \<Rightarrow> [] | Some e \<Rightarrow> [Task_error e])\<rparr>"
proof -
  have 0: "reachable job r exec_init"
    by (rule reachable.start)
  have "\<lparr>clock = wd_after job, wd = WdSelect, wr = WrWork, logs = []\<rparr>
      \<in> set (next_states job r exec_init) \<or> wd_after job = 0"
    using d by (auto simp: next_states_iff can_fire_def can_finish_def can_sync_def
        wait_until_def exec_init_def min_def)
  with 0 have 1: "reachable job r \<lparr>clock = wd_after job, wd = WdSelect, wr = WrWork, logs = []\<rparr>"
    by (auto intro: reachable.step simp: exec_init_def)
  have "\<lparr>clock = wd_after job, wd = WdTimedOut, wr = WrWork,
          logs = [Task_timeout (wd_name job) (wd_after job)]\<rparr>
      \<in> set (next_states job r \<lparr>clock = wd_after job, wd = WdSelect, wr = WrWork, logs = []\<rparr>)"
    using d by (simp add: next_states_iff can_fire_def can_finish_def can_sync_def fire_def)
  with 1 have 2: "reachable job r \<lparr>clock = wd_after job, wd = WdTimedOut, wr = WrWork,
          logs = [Task_timeout (wd_name job) (wd_after job)]\<rparr>"
    by (rule reachable.step)
  have "\<lparr>clock = took r, wd = WdTimedOut, wr = WrWork,
          logs = [Task_timeout (wd_name job) (wd_after job)]\<rparr>
      \<in> set (next_states job r \<lparr>clock = wd_after job, wd = WdTimedOut, wr = WrWork,
          logs = [Task_timeout (wd_name job) (wd_after job)]\<rparr>)"
    using d by (simp add: next_states_iff can_fire_def can_finish_def can_sync_def wait_until_def)
  with 2 have 3: "reachable job r \<lparr>clock = took r, wd = WdTimedOut, wr = WrWork,
          logs = [Task_timeout (wd_name job) (wd_after job)]\<rparr>"
    by (rule reachable.step)
  have "\<lparr>clock = took r, wd = WdTimedOut, wr = WrSend,
            logs = Task_timeout (wd_name job) (wd_after job)
                   # (case err r of None \<Rightarrow> [] | Some e \<Rightarrow> [Task_error e])\<rparr>
      \<in> set (next_states job r \<lparr>clock = took r, wd = WdTimedOut, wr = WrWork,
          logs = [Task_timeout (wd_name job) (wd_after job)]\<rparr>)"
    by (simp add: next_states_iff can_fire_def can_finish_def can_sync_def finish_def)
  with 3 show ?thesis
    by (rule reachable.step)
qed

text \<open>An execution that ends before the timer does return.\<close>

lemma in_time_run:
  assumes d: "0 \<le> took r" "took r < wd_after job"
  shows "reachable job r \<lparr>clock = took r, wd = WdStopped, wr = WrReturned,
            logs = (case err r of None \<Rightarrow> [] | Some e \<Rightarrow> [Task_error e])\<rparr>"
proof -
  have 0: "reachable job r exec_init"
    by (rule reachable.start)
  have "\<lparr>clock = took r, wd = WdSelect, wr = WrWork, logs = []\<rparr>
      \<in> set (next_states job r exec_init) \<or> took r = 0"
    using d by (auto simp: next_states_iff can_fire_def can_finish_def can_sync_def
        wait_until_def exec_init_def min_def)
  with 0 have 1: "reachable job r \<lparr>clock = took r, wd = WdSelect, wr = WrWork, logs = []\<rparr>"
    by (auto intro: reachable.step simp: exec_init_def)
  have "\<lparr>clock = took r, wd = WdSelect, wr = WrSend,
          logs = (case err r of None \<Rightarrow> [] | Some e \<Rightarrow> [Task_error e])\<rparr>
      \<in> set (next_states job r \<lparr>clock = took r, wd = WdSelect, wr = WrWork, logs = []\<rparr>)"
    using d by (simp add: next_states_iff can_fire_def can_finish_def can_sync_def finish_def)
  with 1 have 2: "reachable job r \<lparr>clock = took r, wd = WdSelect, wr = WrSend,
          logs = (case err r of None \<Rightarrow> [] | Some e \<Rightarrow> [Task_error e])\<rparr>"
    by (rule reachable.step)
  have "\<lparr>clock = took r, wd = WdStopped, wr = WrReturned,
            logs = (case err r of None \<Rightarrow> [] | Some e \<Rightarrow> [Task_error e])\<rparr>
      \<in> set (next_states job r \<lparr>clock = took r, wd = WdSelect, wr = WrSend,
          logs = (case err r of None \<Rightarrow> [] | Some e \<Rightarrow> [Task_error e])\<rparr>)"
    using d by (simp add: next_states_iff can_fire_def can_finish_def can_sync_def sync_def)
  with 2 show ?thesis
    by (rule reachable.step)
qed

text \<open>Invariants of every execution.\<close>

lemma next_states_clock:
  "s' \<in> set (next_states job r s) \<Longrightarrow> clock s \<le> clock s'"
  by (auto simp: next_states_iff can_fire_def can_finish_def can_sync_def wait_until_def
      fire_def finish_def sync_def min_def split: if_splits)

lemma work_not_cut_short:
  "reachable job r s \<Longrightarrow> clock s < took r \<Longrightarrow> wr s = WrWork"
proof (induction rule: reachable.induct)
  case start
  then show ?case by (simp add: exec_init_def)
next
  case (step s s')
  from step.hyps(2) step.prems step.IH show ?case
    by (auto simp: next_states_iff can_fire_def can_finish_def can_sync_def wait_until_def
      fire_def finish_def sync_def min_def split: if_splits)
qed

lemma error_logged_only_if_returned:
  "reachable job r s \<Longrightarrow> Task_error e \<in> set (logs s) \<Longrightarrow> err r = Some e"
proof (induction rule: reachable.induct)
  case start
  then show ?case by (simp add: exec_init_def)
next
  case (step s s')
  from step.hyps(2) step.prems step.IH show ?case
    by (auto simp: next_states_iff can_fire_def can_finish_def can_sync_def wait_until_def
      fire_def finish_def sync_def split: if_splits option.splits)
qed

lemma work_completes:
  assumes "next_states job r s = []"
  shows "wr s \<noteq> WrWork"
proof
  assume "wr s = WrWork"
  then have "\<exists>s'. s' \<in> set (next_states job r s)"
    by (auto simp: next_states_iff can_sync_def wait_until_def)
  with assms show False
    by simp
qed

text \<open>Every state that the exploration lists is a state of an execution.\<close>

lemma explore_reachable: "s \<in> set (explore job r n) \<Longrightarrow> reachable job r s"
proof (induction n arbitrary: s)
  case 0
  then show ?case by (simp add: reachable.start)
next
  case (Suc n)
  then show ?case
    by (auto intro: reachable.step)
qed

text \<open>A run of three seconds: the send is received and the closure returns.\<close>

lemma explore_in_time:
  "explore \<lparr>wd_name = ''sessions'', wd_after = 10 * Second, work = sessions\<rparr>
           \<lparr>took = 3 * Second, err = None\<rparr> 3
     = [exec_init,
        \<lparr>clock = 3 * Second, wd = WdSelect, wr = WrWork, logs = []\<rparr>,
        \<lparr>clock = 3 * Second, wd = WdSelect, wr = WrSend, logs = []\<rparr>,
        \<lparr>clock = 3 * Second, wd = WdStopped, wr = WrReturned, logs = []\<rparr>]"
  by (simp add: eval_nat_numeral next_states_def can_fire_def can_finish_def can_sync_def
      wait_until_def finish_def sync_def exec_init_def Second_def)

text \<open>
  C8. Every closure a loop submits, from a timer or from \<open>PersistRunner.Run\<close>, calls
  \<open>timeout\<close> with the name of its task and 10 seconds. When the work function takes
  longer, the execution comes to the state in which the one log line of the watchdog,
  with that name and that duration, has been written and the work function has
  returned, followed by the error of the work function if it returned one; past 10
  seconds that line is in the log. In every execution the work function is at work
  until its own time is over, an error line in the log is the error it returned, and no
  execution comes to rest inside the work function.
\<close>

theorem watchdog_warns_only:
  assumes "(k, job) \<in> set (submitted (run_goroutine g ws))"
  shows "wd_after job = 10 * Second \<and> wd_name job = short_name (work job)
    \<and> (10 * Second < took r \<longrightarrow>
         reachable job r \<lparr>clock = took r, wd = WdTimedOut, wr = WrSend,
            logs = Task_timeout (short_name (work job)) (10 * Second)
                   # (case err r of None \<Rightarrow> [] | Some e \<Rightarrow> [Task_error e])\<rparr>
         \<and> (reachable job r s \<and> 10 * Second < clock s \<longrightarrow>
              Task_timeout (short_name (work job)) (10 * Second) \<in> set (logs s)))
    \<and> (reachable job r s \<and> clock s < took r \<longrightarrow> wr s = WrWork)
    \<and> (reachable job r s \<and> Task_error e \<in> set (logs s) \<longrightarrow> err r = Some e)
    \<and> (next_states job r s = [] \<longrightarrow> wr s \<noteq> WrWork)"
proof -
  from submitted_jobs [OF assms]
  have j: "wd_after job = 10 * Second" "wd_name job = short_name (work job)"
    by simp_all
  have pos: "0 \<le> wd_after job"
    by (simp add: j Second_def)
  have a: "10 * Second < took r \<longrightarrow>
         reachable job r \<lparr>clock = took r, wd = WdTimedOut, wr = WrSend,
            logs = Task_timeout (short_name (work job)) (10 * Second)
                   # (case err r of None \<Rightarrow> [] | Some e \<Rightarrow> [Task_error e])\<rparr>"
    using overrun_run [of job r] pos by (simp add: j)
  have b: "10 * Second < took r \<and> reachable job r s \<and> 10 * Second < clock s \<longrightarrow>
         Task_timeout (short_name (work job)) (10 * Second) \<in> set (logs s)"
    using overrun_states [of job r s] pos by (auto simp: j exec_init_def Second_def)
  from j a b work_not_cut_short [of job r s] error_logged_only_if_returned [of job r s e]
    work_completes [of job r s]
  show ?thesis
    by blast
qed

theorem watchdog_warns_only_witness:
  "(''cron:PersistAndStat'',
      \<lparr>wd_name = ''PersistAndStat'', wd_after = 10 * Second, work = PersistAndStat\<rparr>)
     \<in> set (submitted (run_goroutine PersistRunnerLoop [\<lparr>stop_flag = 0, run_call = Returns\<rparr>]))
   \<and> 10 * Second < took \<lparr>took = 11 * Second, err = Some ''no database''\<rparr>
   \<and> reachable \<lparr>wd_name = ''PersistAndStat'', wd_after = 10 * Second, work = PersistAndStat\<rparr>
        \<lparr>took = 11 * Second, err = Some ''no database''\<rparr>
        \<lparr>clock = 11 * Second, wd = WdTimedOut, wr = WrSend,
           logs = [Task_timeout ''PersistAndStat'' (10 * Second), Task_error ''no database'']\<rparr>
   \<and> 10 * Second < clock \<lparr>clock = 11 * Second, wd = WdTimedOut, wr = WrSend,
           logs = [Task_timeout ''PersistAndStat'' (10 * Second), Task_error ''no database'']\<rparr>
   \<and> next_states \<lparr>wd_name = ''PersistAndStat'', wd_after = 10 * Second, work = PersistAndStat\<rparr>
        \<lparr>took = 11 * Second, err = Some ''no database''\<rparr>
        \<lparr>clock = 11 * Second, wd = WdTimedOut, wr = WrSend,
           logs = [Task_timeout ''PersistAndStat'' (10 * Second), Task_error ''no database'']\<rparr> = []
   \<and> reachable \<lparr>wd_name = ''PersistAndStat'', wd_after = 10 * Second, work = PersistAndStat\<rparr>
        \<lparr>took = 11 * Second, err = Some ''no database''\<rparr> exec_init
   \<and> clock exec_init < took \<lparr>took = 11 * Second, err = Some ''no database''\<rparr>
   \<and> wr exec_init = WrWork"
proof -
  let ?job = "\<lparr>wd_name = ''PersistAndStat'', wd_after = 10 * Second, work = PersistAndStat\<rparr>"
  let ?r = "\<lparr>took = 11 * Second, err = Some ''no database''\<rparr>"
  let ?end = "\<lparr>clock = 11 * Second, wd = WdTimedOut, wr = WrSend,
           logs = [Task_timeout ''PersistAndStat'' (10 * Second), Task_error ''no database'']\<rparr>"
  have h1: "(''cron:PersistAndStat'', ?job)
     \<in> set (submitted (run_goroutine PersistRunnerLoop [\<lparr>stop_flag = 0, run_call = Returns\<rparr>]))"
    by simp
  have h2: "10 * Second < took ?r"
    by (simp add: Second_def)
  have h3: "reachable ?job ?r exec_init"
    by (rule reachable.start)
  have h4: "clock exec_init < took ?r"
    by (simp add: exec_init_def Second_def)
  have h5: "next_states ?job ?r ?end = []"
    by (simp add: next_states_def can_fire_def can_finish_def can_sync_def wait_until_def)
  have h6: "10 * Second < clock ?end"
    by (simp add: Second_def)
  from watchdog_warns_only [OF h1, of ?r ?end "''no database''"] h2
  have h7: "reachable ?job ?r ?end"
    by simp
  from watchdog_warns_only [OF h1, of ?r exec_init "''no database''"] h3 h4
  have h8: "wr exec_init = WrWork"
    by blast
  from h1 h2 h3 h4 h5 h6 h7 h8 show ?thesis
    by blast
qed

text \<open>
  C9. When the work function of a submitted closure takes longer than the 10 seconds
  of the watchdog, no state of the execution has the closure returned: the execution
  comes to the state in which the watchdog has gone after its timer and the closure
  stands at the send on \<open>done\<close>, and that state has no successor.
\<close>

theorem overrun_blocks_forever:
  assumes "(k, job) \<in> set (submitted (run_goroutine g ws))"
    and "10 * Second < took r"
  shows "(reachable job r s \<longrightarrow> wr s \<noteq> WrReturned)
    \<and> reachable job r \<lparr>clock = took r, wd = WdTimedOut, wr = WrSend,
            logs = Task_timeout (short_name (work job)) (10 * Second)
                   # (case err r of None \<Rightarrow> [] | Some e \<Rightarrow> [Task_error e])\<rparr>
    \<and> next_states job r \<lparr>clock = took r, wd = WdTimedOut, wr = WrSend,
            logs = Task_timeout (short_name (work job)) (10 * Second)
                   # (case err r of None \<Rightarrow> [] | Some e \<Rightarrow> [Task_error e])\<rparr> = []"
proof -
  from submitted_jobs [OF assms(1)]
  have j: "wd_after job = 10 * Second" "wd_name job = short_name (work job)"
    by simp_all
  have pos: "0 \<le> wd_after job"
    by (simp add: j Second_def)
  have less: "wd_after job < took r"
    using assms(2) by (simp add: j)
  have a: "reachable job r s \<longrightarrow> wr s \<noteq> WrReturned"
    using overrun_states [OF pos less, of s] by (auto simp: exec_init_def)
  have b: "reachable job r \<lparr>clock = took r, wd = WdTimedOut, wr = WrSend,
            logs = Task_timeout (short_name (work job)) (10 * Second)
                   # (case err r of None \<Rightarrow> [] | Some e \<Rightarrow> [Task_error e])\<rparr>"
    using overrun_run [OF pos less] by (simp add: j)
  have c: "next_states job r \<lparr>clock = took r, wd = WdTimedOut, wr = WrSend,
            logs = Task_timeout (short_name (work job)) (10 * Second)
                   # (case err r of None \<Rightarrow> [] | Some e \<Rightarrow> [Task_error e])\<rparr> = []"
    by (simp add: next_states_def can_fire_def can_finish_def can_sync_def wait_until_def)
  from a b c show ?thesis
    by blast
qed

theorem overrun_blocks_forever_witness:
  "(''cron:sessions'', \<lparr>wd_name = ''sessions'', wd_after = 10 * Second, work = sessions\<rparr>)
     \<in> set (submitted (run_goroutine (TimerLoop (Tasks_init ! 4))
               [\<lparr>stop_flag = 0, run_call = Returns\<rparr>]))
   \<and> 10 * Second < took \<lparr>took = 15 * Second, err = None\<rparr>
   \<and> reachable \<lparr>wd_name = ''sessions'', wd_after = 10 * Second, work = sessions\<rparr>
        \<lparr>took = 15 * Second, err = None\<rparr>
        \<lparr>clock = 15 * Second, wd = WdTimedOut, wr = WrSend,
           logs = [Task_timeout ''sessions'' (10 * Second)]\<rparr>
   \<and> wr \<lparr>clock = 15 * Second, wd = WdTimedOut, wr = WrSend,
           logs = [Task_timeout ''sessions'' (10 * Second)]\<rparr> \<noteq> WrReturned
   \<and> next_states \<lparr>wd_name = ''sessions'', wd_after = 10 * Second, work = sessions\<rparr>
        \<lparr>took = 15 * Second, err = None\<rparr>
        \<lparr>clock = 15 * Second, wd = WdTimedOut, wr = WrSend,
           logs = [Task_timeout ''sessions'' (10 * Second)]\<rparr> = []"
proof -
  let ?job = "\<lparr>wd_name = ''sessions'', wd_after = 10 * Second, work = sessions\<rparr>"
  let ?r = "\<lparr>took = 15 * Second, err = None\<rparr>"
  have h1: "(''cron:sessions'', ?job)
     \<in> set (submitted (run_goroutine (TimerLoop (Tasks_init ! 4))
               [\<lparr>stop_flag = 0, run_call = Returns\<rparr>]))"
    by (simp add: Tasks_init_def ID_def FuncName_def)
  have h2: "10 * Second < took ?r"
    by (simp add: Second_def)
  from overrun_blocks_forever [OF h1 h2] h1 h2 show ?thesis
    by simp
qed

section \<open>One run of a task at a time\<close>

lemma drop_first_subset: "set (drop_first n xs) \<subseteq> set xs"
  by (induction xs) auto

lemma drop_first_distinct:
  "distinct (map fst xs) \<Longrightarrow>
     distinct (map fst (drop_first n xs)) \<and> n \<notin> set (map fst (drop_first n xs))"
proof (induction xs)
  case Nil
  then show ?case by simp
next
  case (Cons x xs)
  have "fst ` set (drop_first n xs) \<subseteq> fst ` set xs"
    using drop_first_subset [of n xs] by blast
  with Cons show ?case
    by auto
qed

lemma find_first_Some: "find_first n xs = Some kj \<Longrightarrow> kj \<in> set xs \<and> fst kj = n"
  by (induction xs) (auto split: if_splits)

lemma keyed_subset: "keyed ys \<Longrightarrow> set xs \<subseteq> set ys \<Longrightarrow> keyed xs"
  by (auto simp: keyed_def)

lemma keyed_append: "keyed (xs @ ys) \<longleftrightarrow> keyed xs \<and> keyed ys"
  by (auto simp: keyed_def)

lemma bgrun_Run_ok:
  "executor_ok ex \<Longrightarrow> k = ''cron:'' @ short_name (work j) \<Longrightarrow> executor_ok (bgrun_Run k j ex)"
  by (auto simp: executor_ok_def bgrun_Run_def keyed_def)

lemma job_done_ok:
  assumes "executor_ok ex"
  shows "executor_ok (job_done k ex)"
proof (cases "k \<in> set (map fst (active ex))")
  case False
  with assms show ?thesis by (simp add: job_done_def)
next
  case True
  from assms have d: "distinct (map fst (drop_first k (active ex)))"
      "k \<notin> set (map fst (drop_first k (active ex)))"
    using drop_first_distinct [of "active ex" k] by (simp_all add: executor_ok_def)
  from assms have ka: "keyed (drop_first k (active ex))" and kd: "keyed (drop_first k (delayed ex))"
    using keyed_subset drop_first_subset by (auto simp: executor_ok_def)
  show ?thesis
  proof (cases "find_first k (delayed ex)")
    case None
    with True d ka assms show ?thesis
      by (simp add: job_done_def executor_ok_def)
  next
    case (Some kj)
    from find_first_Some [OF Some] assms have "fst kj = k" "keyed [kj]"
      by (auto simp: executor_ok_def keyed_def)
    with True Some d ka kd show ?thesis
      by (simp add: job_done_def executor_ok_def keyed_append)
  qed
qed

lemma deliver_ok:
  "executor_ok ex \<Longrightarrow> keyed (submitted (e # es)) \<Longrightarrow> executor_ok (deliver e ex)"
  by (cases e) (auto simp: keyed_def intro: bgrun_Run_ok)

lemma keyed_submitted_tl: "keyed (submitted (e # es)) \<Longrightarrow> keyed (submitted es)"
  by (cases e) (auto simp: keyed_def)

lemma interleave_ok:
  "\<forall>tr\<in>set trs. keyed (submitted tr) \<Longrightarrow> executor_ok ex \<Longrightarrow>
     executor_ok (interleave trs sc ex)"
proof (induction sc arbitrary: trs ex)
  case Nil
  then show ?case by simp
next
  case (Cons a sc)
  show ?case
  proof (cases a)
    case (Done k)
    with Cons show ?thesis
      by (simp add: job_done_ok)
  next
    case (Step i)
    show ?thesis
    proof (cases "i < length trs")
      case False
      with Step Cons show ?thesis by simp
    next
      case True
      show ?thesis
      proof (cases "trs ! i")
        case Nil
        with True Step Cons show ?thesis by simp
      next
        case (Cons e es)
        from True Cons.prems(1) have k: "keyed (submitted (trs ! i))"
          by simp
        with Cons have ke: "keyed (submitted es)" and ok: "executor_ok (deliver e ex)"
          using keyed_submitted_tl deliver_ok \<open>executor_ok ex\<close> by auto
        have "\<forall>tr\<in>set (trs[i := es]). keyed (submitted tr)"
          using Cons.prems(1) ke set_update_subset_insert [of trs i es] by auto
        from Cons.IH [OF this ok] True Cons Step show ?thesis
          by simp
      qed
    qed
  qed
qed

lemma run_all_keyed: "\<forall>tr\<in>set (run_all gs wss). keyed (submitted tr)"
  by (auto simp: run_all_def keyed_def dest!: submitted_jobs)

lemma one_per_work:
  "distinct (map fst xs) \<Longrightarrow> keyed xs \<Longrightarrow>
     length (filter (\<lambda>kj. work (snd kj) = f) xs) \<le> 1"
proof (induction xs)
  case Nil
  then show ?case by simp
next
  case (Cons x xs)
  show ?case
  proof (cases "work (snd x) = f")
    case False
    with Cons show ?thesis by (simp add: keyed_def)
  next
    case True
    have "filter (\<lambda>kj. work (snd kj) = f) xs = []"
    proof (rule ccontr)
      assume "filter (\<lambda>kj. work (snd kj) = f) xs \<noteq> []"
      then obtain y where y: "y \<in> set xs" "work (snd y) = f"
        by (metis (mono_tags, lifting) filter_False)
      with Cons.prems(2) True have "fst y = fst x"
        by (simp add: keyed_def)
      with y have "fst x \<in> fst ` set xs"
        by (metis imageI)
      with Cons.prems(1) show False
        by simp
    qed
    with True show ?thesis by simp
  qed
qed

text \<open>
  C1. Every call of \<open>bgrun.Run\<close> by any loop stands under the name made from the work
  function of its task; the loop on \<open>PersistRunner.Run\<close> and the timer loop of the
  persist task use the same name, that of the task's identity. With the executor keyed
  by that name, whatever the loops meet and however their steps and the ends of runs
  fall, no two active runs share a name, and at most one run of a work function is
  active.
\<close>

theorem one_run_per_task:
  "distinct (map fst (active (interleave (run_all gs wss) sc executor_init)))
   \<and> length (active_runs f (interleave (run_all gs wss) sc executor_init)) \<le> 1
   \<and> ((k, job) \<in> set (submitted (run_goroutine g ws)) \<longrightarrow>
        k = ''cron:'' @ short_name (work job))
   \<and> map fst (submitted (run_goroutine PersistRunnerLoop [w]))
       = [''cron:'' @ ID \<lparr>Desc = ''persist hits'', Fun = PersistAndStat, Period = d\<rparr>]
   \<and> (stop_flag w \<noteq> 1 \<longrightarrow>
        map fst (submitted (run_goroutine
            (TimerLoop \<lparr>Desc = ''persist hits'', Fun = PersistAndStat, Period = d\<rparr>) [w]))
          = [''cron:'' @ ID \<lparr>Desc = ''persist hits'', Fun = PersistAndStat, Period = d\<rparr>])"
proof -
  have "executor_ok executor_init"
    by (simp add: executor_ok_def executor_init_def keyed_def)
  with run_all_keyed [of gs wss]
  have ok: "executor_ok (interleave (run_all gs wss) sc executor_init)"
    by (rule interleave_ok)
  then have a: "distinct (map fst (active (interleave (run_all gs wss) sc executor_init)))"
    by (simp add: executor_ok_def)
  from ok have b: "length (active_runs f (interleave (run_all gs wss) sc executor_init)) \<le> 1"
    unfolding active_runs_def by (intro one_per_work) (simp_all add: executor_ok_def)
  have c: "(k, job) \<in> set (submitted (run_goroutine g ws)) \<longrightarrow>
        k = ''cron:'' @ short_name (work job)"
    using submitted_jobs [of k job g ws] by blast
  have e: "map fst (submitted (run_goroutine PersistRunnerLoop [w]))
       = [''cron:'' @ ID \<lparr>Desc = ''persist hits'', Fun = PersistAndStat, Period = d\<rparr>]"
    by (cases "run_call w") (simp_all add: ID_short)
  have g: "stop_flag w \<noteq> 1 \<longrightarrow>
        map fst (submitted (run_goroutine
            (TimerLoop \<lparr>Desc = ''persist hits'', Fun = PersistAndStat, Period = d\<rparr>) [w]))
          = [''cron:'' @ ID \<lparr>Desc = ''persist hits'', Fun = PersistAndStat, Period = d\<rparr>]"
    by (cases "run_call w") simp_all
  from a b c e g show ?thesis
    by blast
qed

theorem one_run_per_task_witness:
  "(''cron:PersistAndStat'',
      \<lparr>wd_name = ''PersistAndStat'', wd_after = 10 * Second, work = PersistAndStat\<rparr>)
     \<in> set (submitted (run_goroutine PersistRunnerLoop [\<lparr>stop_flag = 0, run_call = Returns\<rparr>]))
   \<and> stop_flag \<lparr>stop_flag = 0, run_call = Returns\<rparr> \<noteq> 1
   \<and> map fst (submitted (run_goroutine
        (TimerLoop \<lparr>Desc = ''persist hits'', Fun = PersistAndStat, Period = 10 * Second\<rparr>)
        [\<lparr>stop_flag = 0, run_call = Returns\<rparr>]))
       = map fst (submitted (run_goroutine PersistRunnerLoop [\<lparr>stop_flag = 0, run_call = Returns\<rparr>]))
   \<and> map fst (active (interleave
        (run_all [PersistRunnerLoop,
                  TimerLoop \<lparr>Desc = ''persist hits'', Fun = PersistAndStat, Period = 10 * Second\<rparr>]
           [[\<lparr>stop_flag = 0, run_call = Returns\<rparr>], [\<lparr>stop_flag = 0, run_call = Returns\<rparr>]])
        [Step 0, Step 1, Step 1, Step 0, Step 1] executor_init))
       = [''cron:PersistAndStat'']
   \<and> map fst (delayed (interleave
        (run_all [PersistRunnerLoop,
                  TimerLoop \<lparr>Desc = ''persist hits'', Fun = PersistAndStat, Period = 10 * Second\<rparr>]
           [[\<lparr>stop_flag = 0, run_call = Returns\<rparr>], [\<lparr>stop_flag = 0, run_call = Returns\<rparr>]])
        [Step 0, Step 1, Step 1, Step 0, Step 1] executor_init))
       = [''cron:PersistAndStat'']
   \<and> length (active_runs PersistAndStat (interleave
        (run_all [PersistRunnerLoop,
                  TimerLoop \<lparr>Desc = ''persist hits'', Fun = PersistAndStat, Period = 10 * Second\<rparr>]
           [[\<lparr>stop_flag = 0, run_call = Returns\<rparr>], [\<lparr>stop_flag = 0, run_call = Returns\<rparr>]])
        [Step 0, Step 1, Step 1, Step 0, Step 1] executor_init)) \<le> 1"
proof -
  let ?q = "\<lparr>stop_flag = 0, run_call = Returns\<rparr>"
  let ?t = "\<lparr>Desc = ''persist hits'', Fun = PersistAndStat, Period = 10 * Second\<rparr>"
  let ?ex = "interleave (run_all [PersistRunnerLoop, TimerLoop ?t] [[?q], [?q]])
        [Step 0, Step 1, Step 1, Step 0, Step 1] executor_init"
  have h1: "(''cron:PersistAndStat'',
      \<lparr>wd_name = ''PersistAndStat'', wd_after = 10 * Second, work = PersistAndStat\<rparr>)
     \<in> set (submitted (run_goroutine PersistRunnerLoop [?q]))"
    by simp
  have h2: "stop_flag ?q \<noteq> 1"
    by simp
  have id: "ID ?t = ''PersistAndStat''"
    by (simp add: ID_def FuncName_def)
  have ev: "map fst (active ?ex) = [''cron:PersistAndStat'']
      \<and> map fst (delayed ?ex) = [''cron:PersistAndStat'']"
    by (simp add: run_all_def executor_init_def bgrun_Run_def id)
  from one_run_per_task
         [of "[PersistRunnerLoop, TimerLoop ?t]" "[[?q], [?q]]"
             "[Step 0, Step 1, Step 1, Step 0, Step 1]" PersistAndStat
             "''cron:PersistAndStat''"
             "\<lparr>wd_name = ''PersistAndStat'', wd_after = 10 * Second, work = PersistAndStat\<rparr>"
             PersistRunnerLoop "[?q]" ?q "10 * Second"]
       h1 h2 ev
  show ?thesis
    by simp
qed

section \<open>Salt rotation and session continuity\<close>

lemma Assign_reuse:
  "recency st (si, fp) = Some e \<Longrightarrow> now - last_seen e \<le> window \<Longrightarrow>
   minted_under e = H (current st) si fp \<or> minted_under e = H (previous st) si fp \<Longrightarrow>
   Assign H window si fp pa now st
     = ((session e, pa \<notin> set (paths e)),
        st\<lparr>recency := (recency st)((si, fp) \<mapsto> e\<lparr>last_seen := now, paths := pa # paths e\<rparr>)\<rparr>)"
  by (simp add: Assign_def)

lemma Assign_mint:
  "recency st (si, fp) = None \<Longrightarrow>
   Assign H window si fp pa now st
     = ((Suc (minted st), True),
        st\<lparr>minted := Suc (minted st),
           recency := (recency st)((si, fp) \<mapsto>
             \<lparr>session = Suc (minted st), last_seen = now,
              minted_under = H (current st) si fp, paths = [pa]\<rparr>)\<rparr>)"
  by (simp add: Assign_def)

lemma Assign_salts:
  "current (snd (Assign H window si fp pa now st)) = current st
   \<and> previous (snd (Assign H window si fp pa now st)) = previous st
   \<and> lastRotated (snd (Assign H window si fp pa now st)) = lastRotated st"
  by (simp add: Assign_def Let_def split: option.split)

lemma Assign_other:
  "(si, fp) \<noteq> p \<Longrightarrow> recency (snd (Assign H window si fp pa now st)) p = recency st p"
  by (auto simp: Assign_def Let_def split: option.split)

lemma Assign_entry:
  "\<exists>e'. recency (snd (Assign H window si fp pa now st)) (si, fp) = Some e'
        \<and> session e' = fst (fst (Assign H window si fp pa now st))
        \<and> last_seen e' = now
        \<and> (minted_under e' = H (current st) si fp \<or> minted_under e' = H (previous st) si fp)"
  by (auto simp: Assign_def Let_def split: option.split)

lemma fst_RecordHits_Cons:
  "fst (RecordHits H window (q # qs) st)
     = fst (Assign H window (site q) (fingerprint q) (path q) (at q) st)
       # fst (RecordHits H window qs (snd (Assign H window (site q) (fingerprint q) (path q) (at q) st)))"
  by (simp add: split_def)

lemma length_RecordHits: "length (fst (RecordHits H window qs st)) = length qs"
  by (induction qs arbitrary: st) (simp_all add: split_def)

lemma earlier_paths_0: "earlier_paths p qs 0 = []"
  by (simp add: earlier_paths_def)

lemma earlier_paths_Suc:
  "earlier_paths p (q # qs) (Suc j)
     = (if (site q, fingerprint q) = p then [path q] else []) @ earlier_paths p qs j"
  by (simp add: earlier_paths_def)

text \<open>A session that is running goes on through the hits of one window.\<close>

lemma RecordHits_running:
  assumes "recency st p = Some e"
    and "minted_under e = H (current st) (fst p) (snd p)
         \<or> minted_under e = H (previous st) (fst p) (snd p)"
    and "t0 \<le> last_seen e"
    and "\<forall>q\<in>set qs. t0 \<le> at q \<and> at q \<le> t0 + window"
    and "j < length qs" and "(site (qs ! j), fingerprint (qs ! j)) = p"
  shows "fst (RecordHits H window qs st) ! j
     = (session e, path (qs ! j) \<notin> set (paths e) \<union> set (earlier_paths p qs j))"
  using assms
proof (induction qs arbitrary: st e j)
  case Nil
  then show ?case by simp
next
  case (Cons q qs)
  let ?A = "Assign H window (site q) (fingerprint q) (path q) (at q) st"
  show ?case
  proof (cases "(site q, fingerprint q) = p")
    case True
    from Cons.prems(3,4) have near: "at q - last_seen e \<le> window" and t0: "t0 \<le> at q"
      by auto
    from True Cons.prems(1,2) near
    have A: "?A = ((session e, path q \<notin> set (paths e)),
        st\<lparr>recency := (recency st)((site q, fingerprint q) \<mapsto>
              e\<lparr>last_seen := at q, paths := path q # paths e\<rparr>)\<rparr>)"
      by (intro Assign_reuse) auto
    show ?thesis
    proof (cases j)
      case 0
      with A show ?thesis
        by (simp add: fst_RecordHits_Cons earlier_paths_0 del: RecordHits.simps)
    next
      case (Suc k)
      let ?e = "e\<lparr>last_seen := at q, paths := path q # paths e\<rparr>"
      have "fst (RecordHits H window qs (snd ?A)) ! k
          = (session ?e, path (qs ! k) \<notin> set (paths ?e) \<union> set (earlier_paths p qs k))"
      proof (rule Cons.IH)
        show "recency (snd ?A) p = Some ?e"
          using True by (simp add: A)
        show "minted_under ?e = H (current (snd ?A)) (fst p) (snd p)
            \<or> minted_under ?e = H (previous (snd ?A)) (fst p) (snd p)"
          using Cons.prems(2) by (simp add: A)
        show "t0 \<le> last_seen ?e"
          using t0 by simp
        show "\<forall>q\<in>set qs. t0 \<le> at q \<and> at q \<le> t0 + window"
          using Cons.prems(4) by simp
        show "k < length qs"
          using Cons.prems(5) Suc by simp
        show "(site (qs ! k), fingerprint (qs ! k)) = p"
          using Cons.prems(6) Suc by simp
      qed
      with Suc True show ?thesis
        by (simp add: fst_RecordHits_Cons earlier_paths_Suc del: RecordHits.simps)
    qed
  next
    case False
    with Cons.prems(6) obtain k where Suc: "j = Suc k"
      by (cases j) auto
    have "fst (RecordHits H window qs (snd ?A)) ! k
          = (session e, path (qs ! k) \<notin> set (paths e) \<union> set (earlier_paths p qs k))"
    proof (rule Cons.IH)
      show "recency (snd ?A) p = Some e"
        using False Cons.prems(1) by (simp add: Assign_other)
      show "minted_under e = H (current (snd ?A)) (fst p) (snd p)
            \<or> minted_under e = H (previous (snd ?A)) (fst p) (snd p)"
        using Cons.prems(2) by (simp add: Assign_salts)
      show "t0 \<le> last_seen e"
        using Cons.prems(3) .
      show "\<forall>q\<in>set qs. t0 \<le> at q \<and> at q \<le> t0 + window"
        using Cons.prems(4) by simp
      show "k < length qs"
        using Cons.prems(5) Suc by simp
      show "(site (qs ! k), fingerprint (qs ! k)) = p"
        using Cons.prems(6) Suc by simp
    qed
    with Suc False show ?thesis
      by (simp add: fst_RecordHits_Cons earlier_paths_Suc del: RecordHits.simps)
  qed
qed

text \<open>Two hits of one site and fingerprint in one window get one session.\<close>

lemma RecordHits_same_session:
  assumes "\<forall>q\<in>set qs. t0 \<le> at q \<and> at q \<le> t0 + window"
    and "i < j" and "j < length qs"
    and "site (qs ! i) = site (qs ! j)" and "fingerprint (qs ! i) = fingerprint (qs ! j)"
  shows "fst (fst (RecordHits H window qs st) ! i) = fst (fst (RecordHits H window qs st) ! j)"
  using assms
proof (induction qs arbitrary: st i j)
  case Nil
  then show ?case by simp
next
  case (Cons q qs)
  let ?A = "Assign H window (site q) (fingerprint q) (path q) (at q) st"
  from Cons.prems(2) obtain k where j: "j = Suc k"
    by (cases j) auto
  show ?case
  proof (cases i)
    case 0
    from Assign_entry [of H window "site q" "fingerprint q" "path q" "at q" st]
    obtain e' where e': "recency (snd ?A) (site q, fingerprint q) = Some e'"
        "session e' = fst (fst ?A)" "last_seen e' = at q"
        "minted_under e' = H (current st) (site q) (fingerprint q)
         \<or> minted_under e' = H (previous st) (site q) (fingerprint q)"
      by blast
    have "fst (RecordHits H window qs (snd ?A)) ! k
        = (session e', path (qs ! k) \<notin> set (paths e')
             \<union> set (earlier_paths (site q, fingerprint q) qs k))"
    proof (rule RecordHits_running [where ?t0.0 = t0])
      show "recency (snd ?A) (site q, fingerprint q) = Some e'"
        by (rule e')
      show "minted_under e' = H (current (snd ?A)) (fst (site q, fingerprint q)) (snd (site q, fingerprint q))
          \<or> minted_under e' = H (previous (snd ?A)) (fst (site q, fingerprint q)) (snd (site q, fingerprint q))"
        using e'(4) by (simp add: Assign_salts)
      show "t0 \<le> last_seen e'"
        using e'(3) Cons.prems(1) by simp
      show "\<forall>q\<in>set qs. t0 \<le> at q \<and> at q \<le> t0 + window"
        using Cons.prems(1) by simp
      show "k < length qs"
        using Cons.prems(3) j by simp
      show "(site (qs ! k), fingerprint (qs ! k)) = (site q, fingerprint q)"
        using Cons.prems(4,5) 0 j by simp
    qed
    with 0 j e'(2) show ?thesis
      by (simp add: fst_RecordHits_Cons del: RecordHits.simps)
  next
    case (Suc i')
    have "fst (fst (RecordHits H window qs (snd ?A)) ! i')
        = fst (fst (RecordHits H window qs (snd ?A)) ! k)"
      using Cons.prems Suc j by (intro Cons.IH) simp_all
    with Suc j show ?thesis
      by (simp add: fst_RecordHits_Cons del: RecordHits.simps)
  qed
qed

text \<open>In a sequence that opens the session, a hit is a first visit when its path is new.\<close>

lemma RecordHits_first_visit:
  assumes "recency st p = None"
    and "\<forall>q\<in>set qs. t0 \<le> at q \<and> at q \<le> t0 + window"
    and "j < length qs" and "(site (qs ! j), fingerprint (qs ! j)) = p"
  shows "snd (fst (RecordHits H window qs st) ! j)
     \<longleftrightarrow> path (qs ! j) \<notin> set (earlier_paths p qs j)"
  using assms
proof (induction qs arbitrary: st j)
  case Nil
  then show ?case by simp
next
  case (Cons q qs)
  let ?A = "Assign H window (site q) (fingerprint q) (path q) (at q) st"
  show ?case
  proof (cases "(site q, fingerprint q) = p")
    case True
    with Cons.prems(1)
    have A: "?A = ((Suc (minted st), True),
        st\<lparr>minted := Suc (minted st),
           recency := (recency st)((site q, fingerprint q) \<mapsto>
             \<lparr>session = Suc (minted st), last_seen = at q,
              minted_under = H (current st) (site q) (fingerprint q), paths = [path q]\<rparr>)\<rparr>)"
      by (intro Assign_mint) simp
    show ?thesis
    proof (cases j)
      case 0
      with A show ?thesis
        by (simp add: fst_RecordHits_Cons earlier_paths_0 del: RecordHits.simps)
    next
      case (Suc k)
      let ?e = "\<lparr>session = Suc (minted st), last_seen = at q,
              minted_under = H (current st) (site q) (fingerprint q), paths = [path q]\<rparr>"
      have "fst (RecordHits H window qs (snd ?A)) ! k
          = (session ?e, path (qs ! k) \<notin> set (paths ?e) \<union> set (earlier_paths p qs k))"
      proof (rule RecordHits_running [where ?t0.0 = t0])
        show "recency (snd ?A) p = Some ?e"
          using True by (simp add: A)
        show "minted_under ?e = H (current (snd ?A)) (fst p) (snd p)
            \<or> minted_under ?e = H (previous (snd ?A)) (fst p) (snd p)"
          using True by (auto simp: A)
        show "t0 \<le> last_seen ?e"
          using Cons.prems(2) by simp
        show "\<forall>q\<in>set qs. t0 \<le> at q \<and> at q \<le> t0 + window"
          using Cons.prems(2) by simp
        show "k < length qs"
          using Cons.prems(3) Suc by simp
        show "(site (qs ! k), fingerprint (qs ! k)) = p"
          using Cons.prems(4) Suc by simp
      qed
      with Suc True show ?thesis
        by (simp add: fst_RecordHits_Cons earlier_paths_Suc del: RecordHits.simps)
    qed
  next
    case False
    with Cons.prems(4) obtain k where Suc: "j = Suc k"
      by (cases j) auto
    have "snd (fst (RecordHits H window qs (snd ?A)) ! k)
        \<longleftrightarrow> path (qs ! k) \<notin> set (earlier_paths p qs k)"
    proof (rule Cons.IH)
      show "recency (snd ?A) p = None"
        using False Cons.prems(1) by (simp add: Assign_other)
      show "\<forall>q\<in>set qs. t0 \<le> at q \<and> at q \<le> t0 + window"
        using Cons.prems(2) by simp
      show "k < length qs"
        using Cons.prems(3) Suc by simp
      show "(site (qs ! k), fingerprint (qs ! k)) = p"
        using Cons.prems(4) Suc by simp
    qed
    with Suc False show ?thesis
      by (simp add: fst_RecordHits_Cons earlier_paths_Suc del: RecordHits.simps)
  qed
qed

subsection \<open>The model passes the test\<close>

lemmas test_defs = phase1_def phase2_def phase3_def sends1_def sends2_def sends3_def send_def
  store0_def ideal_hash_def RefreshSalt_def Assign_def GetSalt_def Let_def
  Hour_def Minute_def Second_def to_hits_def checkSess_def open_session_def

text \<open>
  The salts are not rotated after one hour and are rotated by each \<open>rotate\<close>, and
  \<open>checkSess\<close> finds nothing wrong after each of the three parts.
\<close>

lemma TestBackendCountSessions_passes:
  "GetSalt (RefreshSalt (12 * Hour) (1 * Hour) ''salt-x'' store0) = GetSalt store0
   \<and> checkSess (to_hits (fst phase1)) [1, 1, 2, 3, 3, 1, 2] = []
   \<and> snd (GetSalt (RefreshSalt (12 * Hour) (13 * Hour) ''salt-2'' (snd phase1)))
       = fst (GetSalt (snd phase1))
   \<and> checkSess (to_hits (fst phase1 @ fst phase2)) [1, 1, 2, 3, 3, 1, 2, 1, 3] = []
   \<and> snd (GetSalt (RefreshSalt (12 * Hour) (25 * Hour) ''salt-3'' (snd phase2)))
       = fst (GetSalt (snd phase2))
   \<and> checkSess (to_hits (fst phase1 @ fst phase2 @ fst phase3))
        [1, 1, 2, 3, 3, 1, 2, 1, 3, 4, 5] = []"
  by (simp add: test_defs)

subsection \<open>Rotation of the salts\<close>

text \<open>
  C6. \<open>RefreshSalt\<close> rotates, the current salt becoming the previous one and the new
  salt the current one, when the rotation interval has passed since the last rotation,
  and only then: before that it leaves the memstore as it is. So a call that comes less
  than the interval after a call that rotated leaves the salt pair unchanged.
\<close>

theorem RefreshSalt_rotates_iff:
  "(interval \<le> now - lastRotated st \<longrightarrow>
      RefreshSalt interval now fresh st
        = st\<lparr>previous := current st, current := fresh, lastRotated := now\<rparr>
      \<and> GetSalt (RefreshSalt interval now fresh st) = (fresh, current st))
   \<and> (now - lastRotated st < interval \<longrightarrow> RefreshSalt interval now fresh st = st)
   \<and> (interval \<le> now - lastRotated st \<and> again - now < interval \<longrightarrow>
        GetSalt (RefreshSalt interval again fresh2 (RefreshSalt interval now fresh st))
          = GetSalt (RefreshSalt interval now fresh st))"
  by (simp add: RefreshSalt_def GetSalt_def)

theorem RefreshSalt_rotates_iff_witness:
  "12 * Hour \<le> 12 * Hour - lastRotated store0
   \<and> GetSalt (RefreshSalt (12 * Hour) (12 * Hour) ''salt-2'' store0) = (''salt-2'', ''salt-1'')
   \<and> (12 * Hour + 30 * Minute) - 12 * Hour < 12 * Hour
   \<and> GetSalt (RefreshSalt (12 * Hour) (12 * Hour + 30 * Minute) ''salt-3''
        (RefreshSalt (12 * Hour) (12 * Hour) ''salt-2'' store0)) = (''salt-2'', ''salt-1'')
   \<and> 1 * Hour - lastRotated store0 < 12 * Hour
   \<and> RefreshSalt (12 * Hour) (1 * Hour) ''salt-2'' store0 = store0"
proof -
  have h1: "12 * Hour \<le> 12 * Hour - lastRotated store0"
    by (simp add: store0_def)
  have h2: "(12 * Hour + 30 * Minute) - 12 * Hour < 12 * Hour"
    by (simp add: Hour_def Minute_def Second_def)
  have h3: "1 * Hour - lastRotated store0 < 12 * Hour"
    by (simp add: store0_def Hour_def Minute_def Second_def)
  have c: "current store0 = ''salt-1''"
    by (simp add: store0_def)
  note T = RefreshSalt_rotates_iff
         [of "12 * Hour" "12 * Hour" store0 "''salt-2''" "12 * Hour + 30 * Minute" "''salt-3''"]
  from T h1
  have a': "GetSalt (RefreshSalt (12 * Hour) (12 * Hour) ''salt-2'' store0)
      = (''salt-2'', current store0)"
    by blast
  from T h1 h2
  have b': "GetSalt (RefreshSalt (12 * Hour) (12 * Hour + 30 * Minute) ''salt-3''
        (RefreshSalt (12 * Hour) (12 * Hour) ''salt-2'' store0))
      = GetSalt (RefreshSalt (12 * Hour) (12 * Hour) ''salt-2'' store0)"
    by blast
  from a' c
  have a: "GetSalt (RefreshSalt (12 * Hour) (12 * Hour) ''salt-2'' store0) = (''salt-2'', ''salt-1'')"
    by simp
  from b' a
  have b: "GetSalt (RefreshSalt (12 * Hour) (12 * Hour + 30 * Minute) ''salt-3''
        (RefreshSalt (12 * Hour) (12 * Hour) ''salt-2'' store0)) = (''salt-2'', ''salt-1'')"
    by simp
  from RefreshSalt_rotates_iff [of "12 * Hour" "1 * Hour" store0 "''salt-2''"] h3
  have d: "RefreshSalt (12 * Hour) (1 * Hour) ''salt-2'' store0 = store0"
    by blast
  from h1 h2 h3 a b d show ?thesis
    by blast
qed

subsection \<open>Continuity of a session\<close>

text \<open>
  C2 as stated fails: not only the first hit of a session is a first visit. Two hits of
  one site and fingerprint, 30 seconds apart with a window of one hour and no rotation,
  at two paths: both get session 1 and both are first visits. \<open>checkSess\<close> accepts
  that, and reports a second hit whose flag is false.
\<close>

theorem first_visit_counterexample:
  "fst (RecordHits ideal_hash (1 * Hour)
         [send 1 ''test'' ''/a'' 0, send 1 ''test'' ''/b'' (30 * Second)] store0)
     = [(1, True), (1, True)]
   \<and> checkSess (to_hits (fst (RecordHits ideal_hash (1 * Hour)
         [send 1 ''test'' ''/a'' 0, send 1 ''test'' ''/b'' (30 * Second)] store0))) [1, 1] = []
   \<and> checkSess [\<lparr>Session = 1, FirstVisit = True\<rparr>, \<lparr>Session = 1, FirstVisit = False\<rparr>] [1, 1]
     = [''FirstVisit is false'']"
  by (simp add: test_defs)

text \<open>
  C2, amended. In a sequence of hits that all fall in one continuity window, with no
  rotation in between, any two hits of the same site and fingerprint get the same
  session id. Where the sequence opens the session, a hit is a first visit exactly when
  its path has not come in an earlier hit of that site and fingerprint: the first hit
  is one, and so is every later hit at a new path.
\<close>

theorem session_continuity:
  assumes "\<forall>q\<in>set qs. t0 \<le> at q \<and> at q \<le> t0 + window"
  shows "(i < j \<and> j < length qs \<and> site (qs ! i) = site (qs ! j)
          \<and> fingerprint (qs ! i) = fingerprint (qs ! j) \<longrightarrow>
            fst (fst (RecordHits H window qs st) ! i) = fst (fst (RecordHits H window qs st) ! j))
    \<and> (j < length qs \<and> recency st (site (qs ! j), fingerprint (qs ! j)) = None \<longrightarrow>
         (snd (fst (RecordHits H window qs st) ! j)
            \<longleftrightarrow> path (qs ! j)
                  \<notin> set (earlier_paths (site (qs ! j), fingerprint (qs ! j)) qs j)))"
  using RecordHits_same_session [OF assms, of i j H st]
    RecordHits_first_visit [OF _ assms, of st "(site (qs ! j), fingerprint (qs ! j))" j H]
  by blast

theorem session_continuity_witness:
  "list_all (\<lambda>q. 1 * Hour \<le> at q \<and> at q \<le> 1 * Hour + 12 * Hour) sends1
   \<and> (0::nat) < 5 \<and> 5 < length sends1
   \<and> site (sends1 ! 0) = site (sends1 ! 5)
   \<and> fingerprint (sends1 ! 0) = fingerprint (sends1 ! 5)
   \<and> recency store0 (site (sends1 ! 5), fingerprint (sends1 ! 5)) = None
   \<and> fst (fst (RecordHits ideal_hash (12 * Hour) sends1 store0) ! 0)
       = fst (fst (RecordHits ideal_hash (12 * Hour) sends1 store0) ! 5)
   \<and> earlier_paths (site (sends1 ! 5), fingerprint (sends1 ! 5)) sends1 5 = [''/a'', ''/b'']
   \<and> snd (fst (RecordHits ideal_hash (12 * Hour) sends1 store0) ! 5)"
proof -
  have h1: "\<forall>q\<in>set sends1. 1 * Hour \<le> at q \<and> at q \<le> 1 * Hour + 12 * Hour"
    by (simp add: sends1_def send_def Hour_def Minute_def Second_def)
  have h2: "(0::nat) < 5 \<and> 5 < length sends1 \<and> site (sends1 ! 0) = site (sends1 ! 5)
      \<and> fingerprint (sends1 ! 0) = fingerprint (sends1 ! 5)"
    by (simp add: sends1_def send_def)
  have h3: "recency store0 (site (sends1 ! 5), fingerprint (sends1 ! 5)) = None"
    by (simp add: store0_def)
  have h4: "earlier_paths (site (sends1 ! 5), fingerprint (sends1 ! 5)) sends1 5 = [''/a'', ''/b'']"
    by (simp add: earlier_paths_def sends1_def send_def)
  have h5: "path (sends1 ! 5) = ''/f''"
    by (simp add: sends1_def send_def)
  from session_continuity [OF h1, of 0 5 ideal_hash store0] h2 h3 h4 h5
  have "fst (fst (RecordHits ideal_hash (12 * Hour) sends1 store0) ! 0)
       = fst (fst (RecordHits ideal_hash (12 * Hour) sends1 store0) ! 5)"
    and "snd (fst (RecordHits ideal_hash (12 * Hour) sends1 store0) ! 5)"
    by simp_all
  with h1 h2 h3 h4 show ?thesis
    by (simp add: list_all_iff)
qed

subsection \<open>A session across a rotation\<close>

text \<open>
  C7 as stated fails for a session that has come through a rotation already. After the
  second part of the test the session 1 of site 1 and fingerprint ''test'' is open: a
  hit at hour 25 would get it. The rotation at hour 25 takes place, and the hit right
  after it, 12 hours after the session was last seen and so within the window, gets the
  new session 4, as the test wants.
\<close>

theorem second_rotation_counterexample:
  "open_session ideal_hash (12 * Hour) 1 ''test'' (25 * Hour) (snd phase2) = Some 1
   \<and> 12 * Hour \<le> 25 * Hour - lastRotated (snd phase2)
   \<and> GetSalt (RefreshSalt (12 * Hour) (25 * Hour) ''salt-3'' (snd phase2))
       = (''salt-3'', ''salt-2'')
   \<and> fst (Assign ideal_hash (12 * Hour) 1 ''test'' ''/j'' (25 * Hour)
            (RefreshSalt (12 * Hour) (25 * Hour) ''salt-3'' (snd phase2))) = (4, True)"
  by (simp add: test_defs)

text \<open>A session minted from a hash that matches neither salt any more is not taken up.\<close>

lemma rotation_mints:
  assumes "recency st (si, fp) = Some e"
    and "minted_under e \<noteq> H (current st) si fp"
    and "minted_under e \<noteq> H fresh si fp"
    and "interval \<le> tr - lastRotated st"
  shows "fst (Assign H window si fp pa now (RefreshSalt interval tr fresh st))
     = (Suc (minted st), True)"
  using assms by (simp add: RefreshSalt_def Assign_def)

text \<open>
  C7, amended. For every session minted under the salt that is current at the moment
  of a rotation, the hits of its site and fingerprint that come after that one rotation,
  within the continuity window of the time the session was last seen, get the same
  session id as before, the hash under the previous salt still matching. A session
  minted under the salt that is the previous one already is not carried over the
  rotation, when the hash it was minted from differs from the hashes under the salt
  that was current and under the fresh salt (the hash does not collide and the fresh
  draw does not repeat the old salt): the next hit of its site and fingerprint gets a
  newly minted session id, whenever it comes.
\<close>

theorem rotation_keeps_session:
  assumes "recency st (si, fp) = Some e"
    and "minted_under e = H (current st) si fp"
    and "interval \<le> tr - lastRotated st"
    and "\<forall>q\<in>set qs. last_seen e \<le> at q \<and> at q \<le> last_seen e + window"
    and "j < length qs" and "site (qs ! j) = si" and "fingerprint (qs ! j) = fp"
  shows "GetSalt (RefreshSalt interval tr fresh st) = (fresh, current st)
    \<and> fst (fst (RecordHits H window qs (RefreshSalt interval tr fresh st)) ! j) = session e
    \<and> (recency st' (si', fp') = Some e'
        \<and> minted_under e' = H (previous st') si' fp'
        \<and> minted_under e' \<noteq> H (current st') si' fp'
        \<and> minted_under e' \<noteq> H fresh' si' fp'
        \<and> session e' \<le> minted st'
        \<and> interval' \<le> tr' - lastRotated st' \<longrightarrow>
          fst (Assign H window' si' fp' pa now (RefreshSalt interval' tr' fresh' st'))
            = (Suc (minted st'), True)
          \<and> Suc (minted st') \<noteq> session e')"
proof -
  let ?st = "RefreshSalt interval tr fresh st"
  from assms(3) have r: "?st = st\<lparr>previous := current st, current := fresh, lastRotated := tr\<rparr>"
    by (simp add: RefreshSalt_def)
  have "fst (RecordHits H window qs ?st) ! j
      = (session e, path (qs ! j) \<notin> set (paths e) \<union> set (earlier_paths (si, fp) qs j))"
  proof (rule RecordHits_running [where ?t0.0 = "last_seen e"])
    show "recency ?st (si, fp) = Some e"
      using assms(1) by (simp add: r)
    show "minted_under e = H (current ?st) (fst (si, fp)) (snd (si, fp))
        \<or> minted_under e = H (previous ?st) (fst (si, fp)) (snd (si, fp))"
      using assms(2) by (simp add: r)
    show "last_seen e \<le> last_seen e"
      by simp
    show "\<forall>q\<in>set qs. last_seen e \<le> at q \<and> at q \<le> last_seen e + window"
      by (rule assms(4))
    show "j < length qs"
      by (rule assms(5))
    show "(site (qs ! j), fingerprint (qs ! j)) = (si, fp)"
      using assms(6,7) by simp
  qed
  then have a: "GetSalt ?st = (fresh, current st)
      \<and> fst (fst (RecordHits H window qs ?st) ! j) = session e"
    by (simp add: r GetSalt_def)
  have b: "recency st' (si', fp') = Some e'
        \<and> minted_under e' = H (previous st') si' fp'
        \<and> minted_under e' \<noteq> H (current st') si' fp'
        \<and> minted_under e' \<noteq> H fresh' si' fp'
        \<and> session e' \<le> minted st'
        \<and> interval' \<le> tr' - lastRotated st' \<longrightarrow>
          fst (Assign H window' si' fp' pa now (RefreshSalt interval' tr' fresh' st'))
            = (Suc (minted st'), True)
          \<and> Suc (minted st') \<noteq> session e'"
    using rotation_mints [of st' si' fp' e' H fresh' interval' tr' window' pa now] by auto
  from a b show ?thesis
    by blast
qed

theorem rotation_keeps_session_witness:
  "recency (snd phase1) (1, ''test'')
     = Some \<lparr>session = 1, last_seen = 1 * Hour, minted_under = (''salt-1'', 1, ''test''),
             paths = [''/f'', ''/b'', ''/a'']\<rparr>
   \<and> (''salt-1'', 1, ''test'') = ideal_hash (current (snd phase1)) 1 ''test''
   \<and> 12 * Hour \<le> 13 * Hour - lastRotated (snd phase1)
   \<and> list_all (\<lambda>q. 1 * Hour \<le> at q \<and> at q \<le> 1 * Hour + 12 * Hour) sends2
   \<and> (0::nat) < length sends2 \<and> site (sends2 ! 0) = 1 \<and> fingerprint (sends2 ! 0) = ''test''
   \<and> GetSalt (RefreshSalt (12 * Hour) (13 * Hour) ''salt-2'' (snd phase1)) = (''salt-2'', ''salt-1'')
   \<and> fst (fst (RecordHits ideal_hash (12 * Hour) sends2
        (RefreshSalt (12 * Hour) (13 * Hour) ''salt-2'' (snd phase1))) ! 0) = 1
   \<and> recency (snd phase2) (1, ''test'')
     = Some \<lparr>session = 1, last_seen = 13 * Hour, minted_under = (''salt-1'', 1, ''test''),
             paths = [''/h'', ''/f'', ''/b'', ''/a'']\<rparr>
   \<and> (''salt-1'', 1, ''test'') = ideal_hash (previous (snd phase2)) 1 ''test''
   \<and> (''salt-1'', 1, ''test'') \<noteq> ideal_hash (current (snd phase2)) 1 ''test''
   \<and> (''salt-1'', 1, ''test'') \<noteq> ideal_hash ''salt-3'' 1 ''test''
   \<and> (1::nat) \<le> minted (snd phase2)
   \<and> 12 * Hour \<le> 25 * Hour - lastRotated (snd phase2)
   \<and> fst (Assign ideal_hash (12 * Hour) 1 ''test'' ''/j'' (25 * Hour)
            (RefreshSalt (12 * Hour) (25 * Hour) ''salt-3'' (snd phase2))) = (4, True)"
proof -
  let ?e = "\<lparr>session = 1, last_seen = 1 * Hour, minted_under = (''salt-1'', 1, ''test''),
             paths = [''/f'', ''/b'', ''/a'']\<rparr>"
  let ?e2 = "\<lparr>session = 1, last_seen = 13 * Hour, minted_under = (''salt-1'', 1, ''test''),
             paths = [''/h'', ''/f'', ''/b'', ''/a'']\<rparr>"
  have h1: "recency (snd phase1) (1, ''test'') = Some ?e"
    by (simp add: test_defs)
  have c: "current (snd phase1) = ''salt-1''"
    by (simp add: test_defs)
  have h2: "minted_under ?e = ideal_hash (current (snd phase1)) 1 ''test''"
    by (simp add: c ideal_hash_def)
  have h3: "12 * Hour \<le> 13 * Hour - lastRotated (snd phase1)"
    by (simp add: test_defs)
  have h4: "\<forall>q\<in>set sends2. last_seen ?e \<le> at q \<and> at q \<le> last_seen ?e + 12 * Hour"
    by (simp add: sends2_def send_def Hour_def Minute_def Second_def)
  have h5: "(0::nat) < length sends2" and h6: "site (sends2 ! 0) = 1"
    and h7: "fingerprint (sends2 ! 0) = ''test''"
    by (simp_all add: sends2_def send_def)
  have g1: "recency (snd phase2) (1, ''test'') = Some ?e2"
    by (simp add: test_defs)
  have s2: "previous (snd phase2) = ''salt-1''" "current (snd phase2) = ''salt-2''"
      "minted (snd phase2) = 3"
    by (simp_all add: test_defs)
  have g2: "minted_under ?e2 = ideal_hash (previous (snd phase2)) 1 ''test''"
    and g3: "minted_under ?e2 \<noteq> ideal_hash (current (snd phase2)) 1 ''test''"
    and g4: "minted_under ?e2 \<noteq> ideal_hash ''salt-3'' 1 ''test''"
    and g5: "session ?e2 \<le> minted (snd phase2)"
    by (simp_all add: s2 ideal_hash_def)
  have g6: "12 * Hour \<le> 25 * Hour - lastRotated (snd phase2)"
    by (simp add: test_defs)
  note T = rotation_keeps_session
         [where st = "snd phase1" and si = 1 and fp = "''test''" and e = ?e and H = ideal_hash
            and interval = "12 * Hour" and tr = "13 * Hour" and qs = sends2
            and window = "12 * Hour" and j = 0 and fresh = "''salt-2''"
            and st' = "snd phase2" and si' = 1 and fp' = "''test''" and e' = ?e2
            and fresh' = "''salt-3''" and interval' = "12 * Hour" and tr' = "25 * Hour"
            and window' = "12 * Hour" and pa = "''/j''" and now = "25 * Hour",
          OF h1 h2 h3 h4 h5 h6 h7]
  from T c
  have a: "GetSalt (RefreshSalt (12 * Hour) (13 * Hour) ''salt-2'' (snd phase1)) = (''salt-2'', ''salt-1'')"
    and b: "fst (fst (RecordHits ideal_hash (12 * Hour) sends2
        (RefreshSalt (12 * Hour) (13 * Hour) ''salt-2'' (snd phase1))) ! 0) = 1"
    by simp_all
  from T g1 g2 g3 g4 g5 g6
  have "fst (Assign ideal_hash (12 * Hour) 1 ''test'' ''/j'' (25 * Hour)
            (RefreshSalt (12 * Hour) (25 * Hour) ''salt-3'' (snd phase2)))
      = (Suc (minted (snd phase2)), True)"
    by blast
  then have d: "fst (Assign ideal_hash (12 * Hour) 1 ''test'' ''/j'' (25 * Hour)
            (RefreshSalt (12 * Hour) (25 * Hour) ''salt-3'' (snd phase2))) = (4, True)"
    by (simp add: s2)
  from h1 h2 h3 h4 h5 h6 h7 a b g1 g2 g3 g4 g5 g6 d show ?thesis
    by (simp add: list_all_iff)
qed

end
